theory Spec2Isabelle
  imports Main
begin

section \<open>The daily message bot (tiktok\_auto\_forward.py)\<close>

text \<open>
  A shallow embedding of the script. Python strings are lists of characters, a character
  being a code point below 256; the glyphs outside ASCII that decorate the log messages
  are left out of the message texts. Durations are natural numbers of milliseconds.
  An operator interrupt (Ctrl+C) is not an error of the model: the exceptions are the
  instances of Python's \<open>Exception\<close>. The logger, the clock and \<open>time.sleep\<close> do not
  fail; every call of the browser and every access to a file may.
\<close>

subsection \<open>Configuration\<close>

definition SEND_TIME :: "nat \<times> nat" where
  \<comment> \<open>"21:00", as its two fields after \<open>map(int, SEND_TIME.split(':'))\<close>\<close>
  "SEND_TIME = (21, 0)"

definition COOKIES_FILE :: string where
  "COOKIES_FILE = ''cookies.json''"

definition USERS_FILE :: string where
  "USERS_FILE = ''list.txt''"

definition LOG_FILE :: string where
  "LOG_FILE = ''tiktok_logs.txt''"

definition STREAK_MESSAGES :: "string list" where
  "STREAK_MESSAGES = [''text 1'', ''text 2'', ''text 3'']"

definition MAX_RETRIES :: nat where
  "MAX_RETRIES = 3"

definition WAIT_TIMEOUT :: nat where
  "WAIT_TIMEOUT = 20"

definition TYPING_DELAY_MIN :: nat where
  \<comment> \<open>0.05 s\<close>
  "TYPING_DELAY_MIN = 50"

definition TYPING_DELAY_MAX :: nat where
  \<comment> \<open>0.15 s\<close>
  "TYPING_DELAY_MAX = 150"

definition CAPTCHA_CHECK_ATTEMPTS :: nat where
  "CAPTCHA_CHECK_ATTEMPTS = 3"

subsection \<open>Exceptions\<close>

datatype exn =
    TimeoutException
  | NoSuchElementException
  | ElementClickInterceptedException
  | ElementNotInteractableException
  | StaleElementReferenceException
  | WebDriverException
  | FileNotFoundError
  | JSONDecodeError
  | OverflowError
  | OtherException string

subsection \<open>Python string methods\<close>

definition isspace :: "char \<Rightarrow> bool" where
  \<comment> \<open>\<open>str.isspace\<close> on the code points below 256\<close>
  "isspace c = (let n = (of_char c :: nat) in
     (9 \<le> n \<and> n \<le> 13) \<or> (28 \<le> n \<and> n \<le> 32) \<or> n = 133 \<or> n = 160)"

definition lstrip :: "string \<Rightarrow> string" where
  "lstrip s = dropWhile isspace s"

definition rstrip :: "string \<Rightarrow> string" where
  "rstrip s = rev (dropWhile isspace (rev s))"

definition strip :: "string \<Rightarrow> string" where
  \<comment> \<open>\<open>s.strip()\<close>\<close>
  "strip s = rstrip (lstrip s)"

definition lstrip_chars :: "string \<Rightarrow> string \<Rightarrow> string" where
  \<comment> \<open>\<open>s.lstrip(chars)\<close>: every leading character that occurs in \<open>chars\<close> goes\<close>
  "lstrip_chars chars s = dropWhile (\<lambda>c. c \<in> set chars) s"

definition startswith :: "string \<Rightarrow> string \<Rightarrow> bool" where
  \<comment> \<open>\<open>s.startswith(p)\<close>\<close>
  "startswith s p = (take (length p) s = p)"

definition lower_char :: "char \<Rightarrow> char" where
  "lower_char c = (let n = (of_char c :: nat) in
     if (65 \<le> n \<and> n \<le> 90) \<or> (192 \<le> n \<and> n \<le> 222 \<and> n \<noteq> 215)
     then char_of (n + 32) else c)"

definition lower :: "string \<Rightarrow> string" where
  \<comment> \<open>\<open>s.lower()\<close>\<close>
  "lower s = map lower_char s"

fun contains :: "string \<Rightarrow> string \<Rightarrow> bool" where
  \<comment> \<open>\<open>p in s\<close>\<close>
  "contains [] p = (p = [])"
| "contains (c # s) p = (take (length p) (c # s) = p \<or> contains s p)"

subsection \<open>The account list (load\_users)\<close>

fun universal_newlines :: "string \<Rightarrow> string" where
  \<comment> \<open>text mode: \<open>\r\n\<close> and \<open>\r\<close> are read as \<open>\n\<close>\<close>
  "universal_newlines [] = []"
| "universal_newlines [c] = [if c = CHR 0x0D then CHR 0x0A else c]"
| "universal_newlines (c # c' # s) =
     (if c = CHR 0x0D \<and> c' = CHR 0x0A then CHR 0x0A # universal_newlines s
      else if c = CHR 0x0D then CHR 0x0A # universal_newlines (c' # s)
      else c # universal_newlines (c' # s))"

fun readlines_acc :: "string \<Rightarrow> string \<Rightarrow> string list" where
  "readlines_acc cur [] = (if cur = [] then [] else [cur])"
| "readlines_acc cur (c # s) =
     (if c = CHR 0x0A then (cur @ [c]) # readlines_acc [] s else readlines_acc (cur @ [c]) s)"

definition file_lines :: "string \<Rightarrow> string list" where
  \<comment> \<open>\<open>for line in f\<close>: the lines of the text, each with its newline\<close>
  "file_lines content = readlines_acc [] (universal_newlines content)"

definition users_of_lines :: "string list \<Rightarrow> string list" where
  \<comment> \<open>line 89: the comprehension of \<open>load_users\<close>\<close>
  "users_of_lines f =
     [lstrip_chars ''@'' (strip line). line \<leftarrow> f, strip line \<noteq> [] \<and> \<not> startswith line ''#'']"

text \<open>The account-list format in the words of the specification.\<close>

definition is_blank_line :: "string \<Rightarrow> bool" where
  "is_blank_line line = (\<forall>c \<in> set line. isspace c)"

definition is_comment_line :: "string \<Rightarrow> bool" where
  "is_comment_line line = (line \<noteq> [] \<and> hd line = CHR ''#'')"

definition surrounded :: "string \<Rightarrow> string \<Rightarrow> bool" where
  \<comment> \<open>\<open>t\<close> is \<open>line\<close> without its surrounding whitespace\<close>
  "surrounded line t = (\<exists>pre post. line = pre @ t @ post
      \<and> (\<forall>c \<in> set pre. isspace c) \<and> (\<forall>c \<in> set post. isspace c)
      \<and> (t \<noteq> [] \<longrightarrow> \<not> isspace (hd t) \<and> \<not> isspace (last t)))"

definition without_marker :: "string \<Rightarrow> string \<Rightarrow> bool" where
  \<comment> \<open>\<open>u\<close> is \<open>t\<close> without its leading @ marker\<close>
  "without_marker t u = (\<exists>k. t = replicate k CHR ''@'' @ u \<and> (u \<noteq> [] \<longrightarrow> hd u \<noteq> CHR ''@''))"

definition handle_of :: "string \<Rightarrow> string \<Rightarrow> bool" where
  \<comment> \<open>\<open>u\<close> is \<open>line\<close> stripped of its surrounding whitespace and of its leading @ marker\<close>
  "handle_of line u = (\<exists>t. surrounded line t \<and> without_marker t u)"

definition is_account_line :: "string \<Rightarrow> bool" where
  "is_account_line line = (\<not> is_blank_line line \<and> \<not> is_comment_line line)"

subsection \<open>The daily scheduler's next trigger instant\<close>

record py_time =
  hour :: nat
  minute :: nat
  second :: nat
  microsecond :: nat

record py_datetime =
  day :: nat
  tod :: py_time

definition MAXORDINAL :: nat where
  \<comment> \<open>\<open>date.max.toordinal()\<close>, the 31st of December 9999\<close>
  "MAXORDINAL = 3652059"

definition dt_time :: "nat \<Rightarrow> nat \<Rightarrow> py_time" where
  \<comment> \<open>\<open>dt_time(hour, minute)\<close>\<close>
  "dt_time h m = \<lparr>hour = h, minute = m, second = 0, microsecond = 0\<rparr>"

definition target_time :: py_time where
  "target_time = dt_time (fst SEND_TIME) (snd SEND_TIME)"

definition time_lt :: "py_time \<Rightarrow> py_time \<Rightarrow> bool" where
  \<comment> \<open>\<open>a < b\<close> on naive times\<close>
  "time_lt a b = (hour a < hour b \<or> (hour a = hour b \<and> (minute a < minute b
     \<or> (minute a = minute b \<and> (second a < second b
     \<or> (second a = second b \<and> microsecond a < microsecond b))))))"

definition dt_lt :: "py_datetime \<Rightarrow> py_datetime \<Rightarrow> bool" where
  "dt_lt a b = (day a < day b \<or> (day a = day b \<and> time_lt (tod a) (tod b)))"

definition combine :: "nat \<Rightarrow> py_time \<Rightarrow> py_datetime" where
  \<comment> \<open>\<open>datetime.combine(date, time)\<close>\<close>
  "combine d t = \<lparr>day = d, tod = t\<rparr>"

definition add_days :: "py_datetime \<Rightarrow> nat \<Rightarrow> exn + py_datetime" where
  \<comment> \<open>\<open>dt + timedelta(days=n)\<close>\<close>
  "add_days dt n = (if day dt + n > MAXORDINAL then Inl OverflowError
                    else Inr (dt\<lparr>day := day dt + n\<rparr>))"

definition next_run_at_start :: "py_datetime \<Rightarrow> py_time \<Rightarrow> exn + py_datetime" where
  \<comment> \<open>lines 507-514\<close>
  "next_run_at_start now target =
     (let today_run = combine (day now) target in
      if time_lt (tod now) target then Inr today_run
      else add_days today_run 1)"

definition next_run_at_heartbeat :: "py_datetime \<Rightarrow> py_time \<Rightarrow> exn + py_datetime" where
  \<comment> \<open>lines 546-550\<close>
  "next_run_at_heartbeat now target =
     (if time_lt (tod now) target then Inr (combine (day now) target)
      else add_days (combine (day now) target) 1)"

definition microseconds_between :: "py_datetime \<Rightarrow> py_datetime \<Rightarrow> int" where
  \<comment> \<open>\<open>a - b\<close>, in microseconds\<close>
  "microseconds_between a b =
     (let us = (\<lambda>d. ((int (day d) * 24 + int (hour (tod d))) * 60 + int (minute (tod d))) * 60000000
                     + int (second (tod d)) * 1000000 + int (microsecond (tod d)))
      in us a - us b)"

definition heartbeat_due :: "py_datetime \<Rightarrow> py_datetime \<Rightarrow> bool" where
  \<comment> \<open>line 544: \<open>(now - last_check).total_seconds() >= 900\<close>\<close>
  "heartbeat_due now last_check = (microseconds_between now last_check \<ge> 900 * 1000000)"

definition heartbeat :: "py_datetime \<Rightarrow> py_datetime \<Rightarrow> py_time \<Rightarrow>
    exn + (py_datetime option \<times> py_datetime)" where
  \<comment> \<open>lines 543-560: the recomputed next run, if any, and the new \<open>last_check\<close>\<close>
  "heartbeat now last_check target =
     (if heartbeat_due now last_check then
        (case next_run_at_heartbeat now target of
           Inl e \<Rightarrow> Inl e
         | Inr next_run \<Rightarrow> Inr (Some next_run, now))
      else Inr (None, last_check))"

text \<open>The rule in the words of the specification.\<close>

definition spec_next_trigger :: "py_datetime \<Rightarrow> py_time \<Rightarrow> py_datetime" where
  "spec_next_trigger now target =
     (if time_lt (tod now) target then \<lparr>day = day now, tod = target\<rparr>
      else \<lparr>day = day now + 1, tod = target\<rparr>)"

subsection \<open>The environment: browser, files, random numbers\<close>

text \<open>
  The browser, the file system and the random number generator are an environment with a
  state of its own, of any type \<open>'w\<close>. Every operation of the script on it is a function
  of that state that returns the new state with a value or an exception.
\<close>

type_synonym elem = nat

type_synonym cookie = "(string \<times> string) list"

datatype by_kind = By_TAG_NAME | By_XPATH | By_CSS_SELECTOR

datatype keys = Chars string | Keys_ESCAPE | Keys_RETURN

record 'w env =
  env_chrome :: "'w \<Rightarrow> (exn + unit) \<times> 'w"
  env_execute_cdp_cmd :: "'w \<Rightarrow> (exn + unit) \<times> 'w"
  env_get :: "string \<Rightarrow> 'w \<Rightarrow> (exn + unit) \<times> 'w"
  env_add_cookie :: "cookie \<Rightarrow> 'w \<Rightarrow> (exn + unit) \<times> 'w"
  env_find_element :: "by_kind \<Rightarrow> string \<Rightarrow> 'w \<Rightarrow> (exn + elem) \<times> 'w"
  env_until_presence :: "nat \<Rightarrow> by_kind \<Rightarrow> string \<Rightarrow> 'w \<Rightarrow> (exn + elem) \<times> 'w"
  env_text :: "elem \<Rightarrow> 'w \<Rightarrow> (exn + string) \<times> 'w"
  env_is_displayed :: "elem \<Rightarrow> 'w \<Rightarrow> (exn + bool) \<times> 'w"
  env_click :: "elem \<Rightarrow> 'w \<Rightarrow> (exn + unit) \<times> 'w"
  env_send_keys :: "elem \<Rightarrow> keys \<Rightarrow> 'w \<Rightarrow> (exn + unit) \<times> 'w"
  env_execute_script :: "string \<Rightarrow> elem \<Rightarrow> 'w \<Rightarrow> (exn + unit) \<times> 'w"
  env_actions_send_keys :: "keys \<Rightarrow> 'w \<Rightarrow> (exn + unit) \<times> 'w"
  env_actions_click :: "elem \<Rightarrow> 'w \<Rightarrow> (exn + unit) \<times> 'w"
  env_save_screenshot :: "string \<Rightarrow> 'w \<Rightarrow> (exn + unit) \<times> 'w"
  env_quit :: "'w \<Rightarrow> (exn + unit) \<times> 'w"
  env_read_cookies :: "string \<Rightarrow> 'w \<Rightarrow> (exn + cookie list) \<times> 'w"
  env_read_text :: "string \<Rightarrow> 'w \<Rightarrow> (exn + string) \<times> 'w"
  env_append :: "string \<Rightarrow> 'w \<Rightarrow> (exn + unit) \<times> 'w"
  env_uniform :: "nat \<Rightarrow> nat \<Rightarrow> 'w \<Rightarrow> nat \<times> 'w"
  env_choice :: "nat \<Rightarrow> 'w \<Rightarrow> nat \<times> 'w"

subsection \<open>Effects: the trace of a run\<close>

datatype level = DEBUG | INFO | WARNING | ERROR

datatype part = S string | N nat | Secs nat | Now | Exn exn | Traceback exn

type_synonym msg = "part list"

datatype call =
    Chrome
  | Execute_cdp_cmd
  | Get string
  | Add_cookie cookie
  | Find_element by_kind string
  | Until_presence nat by_kind string
  | Text elem
  | Is_displayed elem
  | Click elem
  | Send_keys elem keys
  | Execute_script string elem
  | Actions_send_keys keys
  | Actions_click elem
  | Save_screenshot string
  | Quit
  | Read_file string
  | Append_file string

datatype event =
    Call call bool
  | Logger level msg
  | Append string level msg
  | Sleep nat

record 'w state =
  world :: 'w
  trace :: "event list"

type_synonym ('a, 'w) prog = "'w state \<Rightarrow> (exn + 'a) \<times> 'w state"

definition ret :: "'a \<Rightarrow> ('a, 'w) prog" where
  "ret a s = (Inr a, s)"

definition raise :: "exn \<Rightarrow> ('a, 'w) prog" where
  "raise e s = (Inl e, s)"

definition bind :: "('a, 'w) prog \<Rightarrow> ('a \<Rightarrow> ('b, 'w) prog) \<Rightarrow> ('b, 'w) prog" where
  "bind m f s = (case m s of (Inl e, s') \<Rightarrow> (Inl e, s') | (Inr a, s') \<Rightarrow> f a s')"

definition try_except :: "('a, 'w) prog \<Rightarrow> (exn \<Rightarrow> ('a, 'w) prog) \<Rightarrow> ('a, 'w) prog" where
  "try_except m h s = (case m s of (Inl e, s') \<Rightarrow> h e s' | (Inr a, s') \<Rightarrow> (Inr a, s'))"

definition try_finally :: "('a, 'w) prog \<Rightarrow> (unit, 'w) prog \<Rightarrow> ('a, 'w) prog" where
  \<comment> \<open>a try statement with a finally clause \<open>f\<close>: the clause runs however \<open>m\<close> ends, and an
      exception of the clause replaces the outcome of \<open>m\<close>\<close>
  "try_finally m f s = (case m s of (r, s') \<Rightarrow>
     (case f s' of (Inl e, s'') \<Rightarrow> (Inl e, s'') | (Inr u, s'') \<Rightarrow> (r, s'')))"

definition emit :: "event \<Rightarrow> (unit, 'w) prog" where
  "emit ev s = (Inr (), s\<lparr>trace := trace s @ [ev]\<rparr>)"

definition env_call :: "call \<Rightarrow> ('w \<Rightarrow> (exn + 'a) \<times> 'w) \<Rightarrow> ('a, 'w) prog" where
  \<comment> \<open>a call of the environment; the trace keeps the call and whether it returned\<close>
  "env_call c op s = (case op (world s) of
     (r, w) \<Rightarrow> (r, \<lparr>world = w, trace = trace s @ [Call c (\<not> isl r)]\<rparr>))"

definition draw :: "('w \<Rightarrow> 'a \<times> 'w) \<Rightarrow> ('a, 'w) prog" where
  \<comment> \<open>a random draw\<close>
  "draw op s = (case op (world s) of (a, w) \<Rightarrow> (Inr a, s\<lparr>world := w\<rparr>))"

definition logger :: "level \<Rightarrow> msg \<Rightarrow> (unit, 'w) prog" where
  \<comment> \<open>\<open>logger.debug\<close>, \<open>logger.info\<close>, \<open>logger.warning\<close>, \<open>logger.error\<close>\<close>
  "logger lv m = emit (Logger lv m)"

definition sleep :: "nat \<Rightarrow> (unit, 'w) prog" where
  \<comment> \<open>\<open>time.sleep\<close>\<close>
  "sleep ms = emit (Sleep ms)"

definition log_activity :: "'w env \<Rightarrow> msg \<Rightarrow> level \<Rightarrow> (unit, 'w) prog" where
  \<comment> \<open>lines 97-109: LOG\_FILE is opened for appending and the entry written (the environment
      says whether that fails), the trace keeps the entry without its timestamp; then the
      logger\<close>
  "log_activity d m lv =
     bind (env_call (Append_file LOG_FILE) (env_append d LOG_FILE)) (\<lambda>_.
     bind (emit (Append LOG_FILE lv m)) (\<lambda>_.
     if lv = ERROR then logger ERROR m
     else if lv = WARNING then logger WARNING m
     else logger INFO m))"

definition uniform :: "'w env \<Rightarrow> nat \<Rightarrow> nat \<Rightarrow> (nat, 'w) prog" where
  \<comment> \<open>\<open>random.uniform(a, b)\<close>, in milliseconds\<close>
  "uniform d a b = draw (env_uniform d a b)"

definition choice :: "'w env \<Rightarrow> 'a list \<Rightarrow> ('a, 'w) prog" where
  \<comment> \<open>\<open>random.choice(xs)\<close>\<close>
  "choice d xs = (if xs = [] then raise (OtherException ''IndexError'')
     else bind (draw (env_choice d (length xs))) (\<lambda>i. ret (xs ! (i mod length xs))))"

subsection \<open>The calls of the script on the environment\<close>

definition find_element :: "'w env \<Rightarrow> by_kind \<Rightarrow> string \<Rightarrow> (elem, 'w) prog" where
  \<comment> \<open>\<open>driver.find_element(by, selector)\<close>\<close>
  "find_element d b sel = env_call (Find_element b sel) (env_find_element d b sel)"

definition until_presence :: "'w env \<Rightarrow> nat \<Rightarrow> by_kind \<Rightarrow> string \<Rightarrow> (elem, 'w) prog" where
  \<comment> \<open>\<open>wait.until(EC.presence_of_element_located((by, selector)))\<close>, the wait's timeout first\<close>
  "until_presence d wait b sel =
     env_call (Until_presence wait b sel) (env_until_presence d wait b sel)"

definition text_of :: "'w env \<Rightarrow> elem \<Rightarrow> (string, 'w) prog" where
  \<comment> \<open>\<open>element.text\<close>\<close>
  "text_of d e = env_call (Text e) (env_text d e)"

definition is_displayed :: "'w env \<Rightarrow> elem \<Rightarrow> (bool, 'w) prog" where
  "is_displayed d e = env_call (Is_displayed e) (env_is_displayed d e)"

definition click :: "'w env \<Rightarrow> elem \<Rightarrow> (unit, 'w) prog" where
  "click d e = env_call (Click e) (env_click d e)"

definition send_keys :: "'w env \<Rightarrow> elem \<Rightarrow> keys \<Rightarrow> (unit, 'w) prog" where
  "send_keys d e k = env_call (Send_keys e k) (env_send_keys d e k)"

definition execute_script :: "'w env \<Rightarrow> string \<Rightarrow> elem \<Rightarrow> (unit, 'w) prog" where
  "execute_script d script e = env_call (Execute_script script e) (env_execute_script d script e)"

definition actions_send_keys :: "'w env \<Rightarrow> keys \<Rightarrow> (unit, 'w) prog" where
  \<comment> \<open>\<open>ActionChains(driver).send_keys(k).perform()\<close>\<close>
  "actions_send_keys d k = env_call (Actions_send_keys k) (env_actions_send_keys d k)"

definition actions_click :: "'w env \<Rightarrow> elem \<Rightarrow> (unit, 'w) prog" where
  \<comment> \<open>\<open>ActionChains(driver).move_to_element(e).click().perform()\<close>\<close>
  "actions_click d e = env_call (Actions_click e) (env_actions_click d e)"

definition save_screenshot :: "'w env \<Rightarrow> string \<Rightarrow> (unit, 'w) prog" where
  "save_screenshot d name = env_call (Save_screenshot name) (env_save_screenshot d name)"

definition get :: "'w env \<Rightarrow> string \<Rightarrow> (unit, 'w) prog" where
  \<comment> \<open>\<open>driver.get(url)\<close>\<close>
  "get d url = env_call (Get url) (env_get d url)"

definition quit :: "'w env \<Rightarrow> (unit, 'w) prog" where
  "quit d = env_call Quit (env_quit d)"

subsection \<open>Captcha handling (check\_and\_close\_captcha)\<close>

definition captcha_indicators :: "string list" where
  "captcha_indicators = [''Drag the slider'', ''Verify you are human'', ''puzzle'', ''verification'']"

definition close_selectors :: "string list" where
  "close_selectors = [
     ''//button[contains(@aria-label, 'Close')]'',
     ''//button[contains(@class, 'close')]'',
     ''//*[name()='svg' and contains(@class, 'close')]/parent::button'',
     ''//button[text()='' @ [CHR 0x27, CHR 0xD7, CHR 0x27] @ '']'']"

definition captcha_found :: "string \<Rightarrow> bool" where
  \<comment> \<open>line 198, on the text of the page's body\<close>
  "captcha_found body_text = (let page_text = lower body_text in
     list_ex (\<lambda>indicator. contains page_text (lower indicator)) captcha_indicators)"

fun close_loop :: "'w env \<Rightarrow> string list \<Rightarrow> (bool, 'w) prog" where
  \<comment> \<open>lines 210-219; the value says whether the function has returned True\<close>
  "close_loop d [] = ret False"
| "close_loop d (selector # rest) =
     bind (try_except
        (bind (find_element d By_XPATH selector) (\<lambda>close_btn.
         bind (is_displayed d close_btn) (\<lambda>displayed.
         if displayed then
           bind (click d close_btn) (\<lambda>_.
           bind (logger INFO [S '' Closed captcha popup'']) (\<lambda>_.
           bind (sleep 2000) (\<lambda>_.
           ret True)))
         else ret False)))
        (\<lambda>e. ret False))
     (\<lambda>returned. if returned then ret True else close_loop d rest)"

definition press_escape :: "'w env \<Rightarrow> (bool, 'w) prog" where
  \<comment> \<open>lines 221-227; the value says whether the function has returned True\<close>
  "press_escape d =
     try_except
       (bind (actions_send_keys d Keys_ESCAPE) (\<lambda>_.
        bind (logger INFO [S '' Pressed ESC to close captcha'']) (\<lambda>_.
        bind (sleep 2000) (\<lambda>_.
        ret True))))
       (\<lambda>e. ret False)"

definition check_and_close_captcha :: "'w env \<Rightarrow> (bool, 'w) prog" where
  "check_and_close_captcha d =
     try_except
       (bind (find_element d By_TAG_NAME ''body'') (\<lambda>body.
        bind (text_of d body) (\<lambda>body_text.
        if captcha_found body_text then
          bind (logger WARNING [S '' CAPTCHA detected! Attempting to close...'']) (\<lambda>_.
          bind (close_loop d close_selectors) (\<lambda>returned.
          if returned then ret True
          else bind (press_escape d) (\<lambda>returned.
               if returned then ret True else ret False)))
        else ret False)))
       (\<lambda>e. ret False)"

subsection \<open>The message button (find\_message\_button, click\_message\_button)\<close>

definition xpath_selectors :: "string list" where
  "xpath_selectors = [
     ''//button[@data-e2e='message-button']'',
     ''//button[contains(@class, 'TUXButton') and @data-e2e='message-button']'',
     ''//button[contains(@class, 'TUXButton--secondary') and @data-e2e='message-button']'',
     ''//div[@class='TUXButton-label' and text()='Message']/ancestor::button'',
     ''//button[@data-e2e='user-page-message-button']'',
     ''//button[.//div[text()='Message']]'',
     ''//button[contains(text(), 'Message')]'']"

definition css_selectors :: "string list" where
  "css_selectors = [
     ''button[data-e2e='message-button']'',
     ''button.TUXButton[data-e2e='message-button']'']"

fun xpath_loop :: "'w env \<Rightarrow> nat \<Rightarrow> nat \<Rightarrow> string list \<Rightarrow> (elem option, 'w) prog" where
  \<comment> \<open>lines 255-264, \<open>i\<close> counting from 1; the value is the button the function returns\<close>
  "xpath_loop d wait i [] = ret None"
| "xpath_loop d wait i (selector # rest) =
     bind (try_except
        (bind (logger DEBUG [S ''  Trying selector #'', N i, S ''...'']) (\<lambda>_.
         bind (until_presence d wait By_XPATH selector) (\<lambda>button.
         bind (is_displayed d button) (\<lambda>displayed.
         if displayed then
           bind (logger INFO [S '' Found Message button (selector #'', N i, S '')'']) (\<lambda>_.
           ret (Some button))
         else ret None))))
        (\<lambda>e. ret None))
     (\<lambda>returned. case returned of
          Some button \<Rightarrow> ret (Some button)
        | None \<Rightarrow> xpath_loop d wait (Suc i) rest)"

fun css_loop :: "'w env \<Rightarrow> nat \<Rightarrow> string list \<Rightarrow> (elem option, 'w) prog" where
  \<comment> \<open>lines 272-279\<close>
  "css_loop d wait [] = ret None"
| "css_loop d wait (selector # rest) =
     bind (try_except
        (bind (until_presence d wait By_CSS_SELECTOR selector) (\<lambda>button.
         bind (is_displayed d button) (\<lambda>displayed.
         if displayed then
           bind (logger INFO [S '' Found Message button (CSS)'']) (\<lambda>_.
           ret (Some button))
         else ret None)))
        (\<lambda>e. ret None))
     (\<lambda>returned. case returned of
          Some button \<Rightarrow> ret (Some button)
        | None \<Rightarrow> css_loop d wait rest)"

definition find_message_button :: "'w env \<Rightarrow> nat \<Rightarrow> (elem option, 'w) prog" where
  "find_message_button d wait =
     bind (logger INFO [S '' Searching for Message button...'']) (\<lambda>_.
     bind (xpath_loop d wait 1 xpath_selectors) (\<lambda>returned.
     case returned of
       Some button \<Rightarrow> ret (Some button)
     | None \<Rightarrow>
         bind (css_loop d wait css_selectors) (\<lambda>returned.
         case returned of
           Some button \<Rightarrow> ret (Some button)
         | None \<Rightarrow>
             bind (logger ERROR [S '' Message button not found'']) (\<lambda>_.
             ret None))))"

definition methods :: "'w env \<Rightarrow> elem \<Rightarrow> (string \<times> (unit, 'w) prog) list" where
  \<comment> \<open>lines 292-297\<close>
  "methods d button = [
     (''Normal click'', click d button),
     (''Scroll + click'',
        bind (execute_script d ''arguments[0].scrollIntoView({block: 'center'});'' button) (\<lambda>_.
        bind (sleep 500) (\<lambda>_.
        click d button))),
     (''JavaScript click'', execute_script d ''arguments[0].click();'' button),
     (''ActionChains'', actions_click d button)]"

fun click_loop :: "(string \<times> (unit, 'w) prog) list \<Rightarrow> (bool, 'w) prog" where
  \<comment> \<open>lines 299-308; the value says whether the function has returned True\<close>
  "click_loop [] = ret False"
| "click_loop ((method_name, method_func) # rest) =
     bind (try_except
        (bind (logger DEBUG [S ''  Trying: '', S method_name]) (\<lambda>_.
         bind method_func (\<lambda>_.
         bind (logger INFO [S '' Clicked via '', S method_name]) (\<lambda>_.
         bind (sleep 2000) (\<lambda>_.
         ret True)))))
        (\<lambda>e. bind (logger DEBUG [S ''  '', S method_name, S '' failed: '', Exn e]) (\<lambda>_.
             ret False)))
     (\<lambda>returned. if returned then ret True else click_loop rest)"

definition click_message_button :: "'w env \<Rightarrow> elem option \<Rightarrow> (bool, 'w) prog" where
  "click_message_button d button =
     (case button of
        None \<Rightarrow> ret False
      | Some b \<Rightarrow>
          bind (logger INFO [S ''Clicking Message button...'']) (\<lambda>_.
          bind (click_loop (methods d b)) (\<lambda>returned.
          if returned then ret True
          else bind (logger ERROR [S '' All click methods failed'']) (\<lambda>_.
               ret False))))"

subsection \<open>Sending one message (send\_streak\_to\_user)\<close>

definition input_selectors :: "string list" where
  "input_selectors = [
     ''//div[@contenteditable='true']'',
     ''//div[@data-e2e='dm-input']'',
     ''//div[@role='textbox']'']"

fun human_type :: "'w env \<Rightarrow> elem \<Rightarrow> string \<Rightarrow> (unit, 'w) prog" where
  \<comment> \<open>lines 183-186\<close>
  "human_type d element [] = ret ()"
| "human_type d element (char # text) =
     bind (send_keys d element (Chars [char])) (\<lambda>_.
     bind (uniform d TYPING_DELAY_MIN TYPING_DELAY_MAX) (\<lambda>t.
     bind (sleep t) (\<lambda>_.
     human_type d element text)))"

primrec captcha_loop :: "'w env \<Rightarrow> nat \<Rightarrow> (unit, 'w) prog" where
  \<comment> \<open>lines 332-336, on the number of passes left\<close>
  "captcha_loop d 0 = ret ()"
| "captcha_loop d (Suc n) =
     bind (check_and_close_captcha d) (\<lambda>closed.
     if closed then bind (sleep 2000) (\<lambda>_. captcha_loop d n)
     else ret ())"

fun input_loop :: "'w env \<Rightarrow> nat \<Rightarrow> elem option \<Rightarrow> string list \<Rightarrow> (elem option, 'w) prog" where
  \<comment> \<open>lines 362-369. \<open>message_input\<close> is assigned as soon as the wait returns, so an
      exception of \<open>is_displayed\<close> leaves the new element in it, one of the wait the old
      value; the second component says whether the loop is left by \<open>break\<close>\<close>
  "input_loop d wait message_input [] = ret message_input"
| "input_loop d wait message_input (selector # rest) =
     bind (try_except
        (bind (until_presence d wait By_XPATH selector) (\<lambda>found.
         try_except
           (bind (is_displayed d found) (\<lambda>displayed.
            if displayed then
              bind (logger INFO [S '' Found message input'']) (\<lambda>_.
              ret (Some found, True))
            else ret (Some found, False)))
           (\<lambda>e. ret (Some found, False))))
        (\<lambda>e. ret (message_input, False)))
     (\<lambda>(message_input', broke).
        if broke then ret message_input' else input_loop d wait message_input' rest)"

definition type_and_send :: "'w env \<Rightarrow> string \<Rightarrow> elem \<Rightarrow> (bool, 'w) prog" where
  \<comment> \<open>lines 377-390\<close>
  "type_and_send d username message_input =
     bind (click d message_input) (\<lambda>_.
     bind (sleep 500) (\<lambda>_.
     bind (choice d STREAK_MESSAGES) (\<lambda>streak_message.
     bind (logger INFO [S (''Typing: '' @ [CHR 0x27]), S streak_message, S [CHR 0x27]]) (\<lambda>_.
     bind (human_type d message_input streak_message) (\<lambda>_.
     bind (sleep 1000) (\<lambda>_.
     bind (send_keys d message_input Keys_RETURN) (\<lambda>_.
     bind (logger INFO [S '' Message sent'']) (\<lambda>_.
     bind (sleep 2000) (\<lambda>_.
     bind (logger INFO [S '' Success @'', S username]) (\<lambda>_.
     ret True))))))))))"

definition find_input_and_send :: "'w env \<Rightarrow> string \<Rightarrow> nat \<Rightarrow> (bool, 'w) prog" where
  \<comment> \<open>lines 350-390\<close>
  "find_input_and_send d username wait =
     bind (check_and_close_captcha d) (\<lambda>_.
     bind (logger INFO [S ''Searching for message input...'']) (\<lambda>_.
     bind (input_loop d wait None input_selectors) (\<lambda>message_input.
     case message_input of
       None \<Rightarrow>
         bind (logger ERROR [S '' Message input not found'']) (\<lambda>_.
         bind (save_screenshot d (''debug_no_input_'' @ username @ ''.png'')) (\<lambda>_.
         ret False))
     | Some input \<Rightarrow> type_and_send d username input)))"

definition send_streak_body :: "'w env \<Rightarrow> string \<Rightarrow> (bool, 'w) prog" where
  \<comment> \<open>lines 321-390, the body of the try statement, \<open>username\<close> already stripped\<close>
  "send_streak_body d username =
     bind (logger INFO [S (replicate 60 CHR ''='')]) (\<lambda>_.
     bind (logger INFO [S ''Processing @'', S username]) (\<lambda>_.
     bind (logger INFO [S (replicate 60 CHR ''='')]) (\<lambda>_.
     let profile_url = ''https://www.tiktok.com/@'' @ username in
     bind (logger INFO [S ''Navigating to '', S profile_url]) (\<lambda>_.
     bind (get d profile_url) (\<lambda>_.
     bind (sleep 5000) (\<lambda>_.
     bind (captcha_loop d CAPTCHA_CHECK_ATTEMPTS) (\<lambda>_.
     let wait = WAIT_TIMEOUT in
     bind (find_message_button d wait) (\<lambda>message_button.
     if message_button = None then
       bind (save_screenshot d (''debug_no_button_'' @ username @ ''.png'')) (\<lambda>_.
       ret False)
     else
       bind (click_message_button d message_button) (\<lambda>clicked.
       if \<not> clicked then
         bind (save_screenshot d (''debug_click_failed_'' @ username @ ''.png'')) (\<lambda>_.
         ret False)
       else find_input_and_send d username wait)))))))))"

definition send_streak_to_user :: "'w env \<Rightarrow> string \<Rightarrow> (bool, 'w) prog" where
  \<comment> \<open>lines 318-398\<close>
  "send_streak_to_user d username0 =
     (let username = lstrip_chars ''@'' username0 in
      try_except (send_streak_body d username)
        (\<lambda>e. bind (logger ERROR [S '' Error @'', S username, S '': '', Exn e]) (\<lambda>_.
             bind (try_except
                     (save_screenshot d (''debug_error_'' @ username @ ''.png''))
                     (\<lambda>e'. ret ())) (\<lambda>_.
             ret False))))"

subsection \<open>Loading the configuration and the browser\<close>

definition load_cookies :: "'w env \<Rightarrow> (cookie list, 'w) prog" where
  \<comment> \<open>lines 72-83; the environment opens the file and parses its JSON\<close>
  "load_cookies d =
     try_except
       (bind (env_call (Read_file COOKIES_FILE) (env_read_cookies d COOKIES_FILE)) (\<lambda>cookies.
        bind (logger INFO [S '' Loaded '', N (length cookies), S '' cookies from '', S COOKIES_FILE]) (\<lambda>_.
        ret cookies)))
       (\<lambda>e. if e = FileNotFoundError then
              bind (logger ERROR [S '' Cookie file not found: '', S COOKIES_FILE]) (\<lambda>_. raise e)
            else if e = JSONDecodeError then
              bind (logger ERROR [S '' Invalid JSON in '', S COOKIES_FILE]) (\<lambda>_. raise e)
            else raise e)"

definition load_users :: "'w env \<Rightarrow> (string list, 'w) prog" where
  \<comment> \<open>lines 86-94\<close>
  "load_users d =
     try_except
       (bind (env_call (Read_file USERS_FILE) (env_read_text d USERS_FILE)) (\<lambda>content.
        let users = users_of_lines (file_lines content) in
        bind (logger INFO [S '' Loaded '', N (length users), S '' users from '', S USERS_FILE]) (\<lambda>_.
        ret users)))
       (\<lambda>e. if e = FileNotFoundError then
              bind (logger ERROR [S '' User file not found: '', S USERS_FILE]) (\<lambda>_. raise e)
            else raise e)"

definition setup_driver :: "'w env \<Rightarrow> (unit, 'w) prog" where
  \<comment> \<open>lines 116-152; the options of the browser are in the environment's launch\<close>
  "setup_driver d =
     bind (logger INFO [S ''Setting up Chrome driver...'']) (\<lambda>_.
     bind (env_call Chrome (env_chrome d)) (\<lambda>_.
     bind (env_call Execute_cdp_cmd (env_execute_cdp_cmd d)) (\<lambda>_.
     bind (logger INFO [S '' Chrome driver initialized'']) (\<lambda>_.
     ret ()))))"

definition cookie_name :: "cookie \<Rightarrow> string" where
  \<comment> \<open>\<open>cookie.get('name')\<close>, as a message prints it\<close>
  "cookie_name cookie = (case map_of cookie ''name'' of Some n \<Rightarrow> n | None \<Rightarrow> ''None'')"

fun cookie_loop :: "'w env \<Rightarrow> cookie list \<Rightarrow> (unit, 'w) prog" where
  \<comment> \<open>lines 159-178; building \<open>cookie_dict\<close> and adding it is one call of the environment\<close>
  "cookie_loop d [] = ret ()"
| "cookie_loop d (cookie # rest) =
     bind (try_except
        (env_call (Add_cookie cookie) (env_add_cookie d cookie))
        (\<lambda>e. logger WARNING [S ''Failed to add cookie '', S (cookie_name cookie), S '': '', Exn e]))
     (\<lambda>_. cookie_loop d rest)"

definition load_cookies_to_driver :: "'w env \<Rightarrow> cookie list \<Rightarrow> (unit, 'w) prog" where
  \<comment> \<open>lines 155-180\<close>
  "load_cookies_to_driver d cookies =
     bind (get d ''https://www.tiktok.com'') (\<lambda>_.
     bind (sleep 2000) (\<lambda>_.
     bind (cookie_loop d cookies) (\<lambda>_.
     logger INFO [S '' Cookies loaded''])))"

subsection \<open>The batch run (run\_streak\_bot)\<close>

fun retry_loop :: "'w env \<Rightarrow> string \<Rightarrow> nat list \<Rightarrow> nat \<times> nat \<Rightarrow> (nat \<times> nat, 'w) prog" where
  \<comment> \<open>lines 436-447, on the attempts of \<open>range(MAX_RETRIES)\<close> still to make and the two
      counters \<open>(success_count, fail_count)\<close>\<close>
  "retry_loop d username [] (success_count, fail_count) = ret (success_count, fail_count)"
| "retry_loop d username (attempt # rest) (success_count, fail_count) =
     bind (send_streak_to_user d username) (\<lambda>sent.
     if sent then
       bind (log_activity d [S '' @'', S username, S '' - SUCCESS''] INFO) (\<lambda>_.
       ret (success_count + 1, fail_count))
     else if attempt < MAX_RETRIES - 1 then
       bind (log_activity d [S '' @'', S username, S '' - Retry '', N (attempt + 1), S ''/'', N MAX_RETRIES]
               WARNING) (\<lambda>_.
       bind (sleep 5000) (\<lambda>_.
       retry_loop d username rest (success_count, fail_count)))
     else
       bind (log_activity d [S '' @'', S username, S '' - FAILED''] ERROR) (\<lambda>_.
       retry_loop d username rest (success_count, fail_count + 1)))"

definition index_last :: "'a list \<Rightarrow> ('a, 'w) prog" where
  \<comment> \<open>\<open>xs[-1]\<close>\<close>
  "index_last xs = (if xs = [] then raise (OtherException ''IndexError'') else ret (last xs))"

definition delay_between_users :: "'w env \<Rightarrow> string list \<Rightarrow> string \<Rightarrow> (unit, 'w) prog" where
  \<comment> \<open>lines 449-453\<close>
  "delay_between_users d users username =
     bind (index_last users) (\<lambda>last_user.
     if username \<noteq> last_user then
       bind (uniform d 8000 15000) (\<lambda>delay.
       bind (logger INFO [S ''Waiting '', Secs delay, S ''s before next user...'']) (\<lambda>_.
       sleep delay))
     else ret ())"

fun users_loop :: "'w env \<Rightarrow> string list \<Rightarrow> string list \<Rightarrow> nat \<times> nat \<Rightarrow> (nat \<times> nat, 'w) prog" where
  \<comment> \<open>lines 435-453: the whole list \<open>users\<close>, then the accounts still to process\<close>
  "users_loop d users [] counts = ret counts"
| "users_loop d users (username # rest) counts =
     bind (retry_loop d username [0..<MAX_RETRIES] counts) (\<lambda>counts'.
     bind (delay_between_users d users username) (\<lambda>_.
     users_loop d users rest counts'))"

definition process_users :: "'w env \<Rightarrow> string list \<Rightarrow> (nat \<times> nat, 'w) prog" where
  \<comment> \<open>lines 429-460; the value is \<open>(success_count, fail_count)\<close> as the summary logs them\<close>
  "process_users d users =
     bind (log_activity d [S '' Bot ready. Processing '', N (length users), S '' users...''] INFO) (\<lambda>_.
     bind (users_loop d users users (0, 0)) (\<lambda>(success_count, fail_count).
     bind (log_activity d [S (replicate 70 CHR ''='')] INFO) (\<lambda>_.
     bind (log_activity d [S ''DAILY RUN COMPLETED''] INFO) (\<lambda>_.
     bind (log_activity d [S ''Results: '', N success_count, S ''/'', N (length users), S '' successful'']
             INFO) (\<lambda>_.
     bind (log_activity d [S ''Success: '', N success_count, S '', Failed: '', N fail_count] INFO) (\<lambda>_.
     bind (log_activity d [S (replicate 70 CHR ''='')] INFO) (\<lambda>_.
     ret (success_count, fail_count))))))))"

definition with_driver :: "'w env \<Rightarrow> cookie list \<Rightarrow> string list \<Rightarrow> (nat \<times> nat, 'w) prog" where
  \<comment> \<open>lines 424-460: the try statement's body once \<open>driver\<close> is assigned\<close>
  "with_driver d cookies users =
     bind (load_cookies_to_driver d cookies) (\<lambda>_.
     bind (get d ''https://www.tiktok.com'') (\<lambda>_.
     bind (sleep 3000) (\<lambda>_.
     process_users d users)))"

definition critical_error :: "'w env \<Rightarrow> exn \<Rightarrow> (unit, 'w) prog" where
  \<comment> \<open>lines 462-465\<close>
  "critical_error d e =
     bind (log_activity d [S ''Critical error: '', Exn e] ERROR) (\<lambda>_.
     log_activity d [Traceback e] ERROR)"

definition close_browser :: "'w env \<Rightarrow> (unit, 'w) prog" where
  \<comment> \<open>lines 469-473\<close>
  "close_browser d =
     try_except
       (bind (quit d) (\<lambda>_. log_activity d [S ''Browser closed''] INFO))
       (\<lambda>e. ret ())"

datatype run = No_users | Aborted exn | Completed nat nat

definition before_driver :: "'w env \<Rightarrow> ((cookie list \<times> string list) option, 'w) prog" where
  \<comment> \<open>lines 415-424, the body of the try statement up to the assignment of \<open>driver\<close>; the
      value is None when the function returns at line 421\<close>
  "before_driver d =
     bind (load_cookies d) (\<lambda>cookies.
     bind (load_users d) (\<lambda>users.
     if users = [] then
       bind (log_activity d [S ''No users in list.txt''] ERROR) (\<lambda>_.
       ret None)
     else
       bind (setup_driver d) (\<lambda>_.
       ret (Some (cookies, users)))))"

definition run_streak_bot :: "'w env \<Rightarrow> (run, 'w) prog" where
  \<comment> \<open>lines 405-473. The function returns nothing; the value here says how the run went,
      with the two counters of a completed batch. The try statement is split where
      \<open>driver\<close> is assigned: up to that point the finally clause finds \<open>driver\<close> None and does
      nothing, so only the handler runs on an exception; from that point on the finally
      clause closes the browser, whatever the body and the handler have done\<close>
  "run_streak_bot d =
     bind (log_activity d [S (replicate 70 CHR ''='')] INFO) (\<lambda>_.
     bind (log_activity d [S ''DAILY RUN STARTED - '', Now] INFO) (\<lambda>_.
     bind (log_activity d [S (replicate 70 CHR ''='')] INFO) (\<lambda>_.
     bind (try_except (bind (before_driver d) (\<lambda>config. ret (Inr config))) (\<lambda>e. ret (Inl e)))
     (\<lambda>started.
        case started of
          Inl e \<Rightarrow> bind (critical_error d e) (\<lambda>_. ret (Aborted e))
        | Inr None \<Rightarrow> ret No_users
        | Inr (Some (cookies, users)) \<Rightarrow>
            try_finally
              (try_except
                 (bind (with_driver d cookies users) (\<lambda>(success_count, fail_count).
                  ret (Completed success_count fail_count)))
                 (\<lambda>e. bind (critical_error d e) (\<lambda>_. ret (Aborted e))))
              (close_browser d)))))"

subsection \<open>What a trace shows\<close>

text \<open>The click methods that were tried, that failed and that completed, from the logger's lines,
  and the calls of the environment that click the button and returned.\<close>

definition method_names :: "string list" where
  "method_names = [''Normal click'', ''Scroll + click'', ''JavaScript click'', ''ActionChains'']"

fun tried_name :: "event \<Rightarrow> string option" where
  "tried_name (Logger DEBUG [S a, S name]) = (if a = ''  Trying: '' then Some name else None)"
| "tried_name ev = None"

fun failed_name :: "event \<Rightarrow> string option" where
  "failed_name (Logger DEBUG [S a, S name, S b, Exn e]) =
     (if a = ''  '' \<and> b = '' failed: '' then Some name else None)"
| "failed_name ev = None"

fun clicked_name :: "event \<Rightarrow> string option" where
  "clicked_name (Logger INFO [S a, S name]) = (if a = '' Clicked via '' then Some name else None)"
| "clicked_name ev = None"

fun performs_click :: "event \<Rightarrow> bool" where
  "performs_click (Call (Click e) ok) = ok"
| "performs_click (Call (Execute_script script e) ok) = (ok \<and> script = ''arguments[0].click();'')"
| "performs_click (Call (Actions_click e) ok) = ok"
| "performs_click ev = False"

definition methods_tried :: "event list \<Rightarrow> string list" where
  "methods_tried es = List.map_filter tried_name es"

definition methods_failed :: "event list \<Rightarrow> string list" where
  "methods_failed es = List.map_filter failed_name es"

definition methods_clicked :: "event list \<Rightarrow> string list" where
  "methods_clicked es = List.map_filter clicked_name es"

definition clicks_performed :: "event list \<Rightarrow> nat" where
  "clicks_performed es = length (filter performs_click es)"

text \<open>A click method adds none of these logger lines and clicks once if it returns.\<close>

definition click_method :: "(unit, 'w) prog \<Rightarrow> bool" where
  "click_method f = (\<forall>s. \<exists>es. trace (snd (f s)) = trace s @ es
     \<and> methods_tried es = [] \<and> methods_failed es = [] \<and> methods_clicked es = []
     \<and> clicks_performed es = (if isl (fst (f s)) then 0 else 1))"

text \<open>The calls of the environment that a trace holds, and the calls made under each click
  method: those that follow the logger's line on the method being tried, up to the next such
  line. Each call comes with whether it returned.\<close>

fun call_of :: "event \<Rightarrow> (call \<times> bool) option" where
  "call_of (Call c ok) = Some (c, ok)"
| "call_of ev = None"

definition calls_of :: "event list \<Rightarrow> (call \<times> bool) list" where
  "calls_of es = List.map_filter call_of es"

fun sections :: "event list \<Rightarrow> (call \<times> bool) list \<times> (string \<times> (call \<times> bool) list) list" where
  "sections [] = ([], [])"
| "sections (ev # es) =
     (case sections es of (pre, segs) \<Rightarrow>
        (case tried_name ev of
           Some name \<Rightarrow> ([], (name, pre) # segs)
         | None \<Rightarrow>
             (case call_of ev of
                Some c \<Rightarrow> (c # pre, segs)
              | None \<Rightarrow> (pre, segs))))"

definition leading_calls :: "event list \<Rightarrow> (call \<times> bool) list" where
  \<comment> \<open>the calls made before the first method is tried\<close>
  "leading_calls es = fst (sections es)"

definition method_calls :: "event list \<Rightarrow> (string \<times> (call \<times> bool) list) list" where
  \<comment> \<open>the methods tried, in order, each with the calls made under it\<close>
  "method_calls es = snd (sections es)"

text \<open>The four click techniques in the words of the specification, as the calls each one makes
  on the located element: a direct click; a scroll into view, then a click; a click injected
  by a script; a pointer movement to the element and a click.\<close>

definition techniques :: "elem \<Rightarrow> (string \<times> call list) list" where
  "techniques button = [
     (''Normal click'', [Click button]),
     (''Scroll + click'',
        [Execute_script ''arguments[0].scrollIntoView({block: 'center'});'' button, Click button]),
     (''JavaScript click'', [Execute_script ''arguments[0].click();'' button]),
     (''ActionChains'', [Actions_click button])]"

definition completed_by :: "call list \<Rightarrow> (call \<times> bool) list \<Rightarrow> bool" where
  \<comment> \<open>all the calls of the technique were made and returned\<close>
  "completed_by calls cs = (cs = map (\<lambda>c. (c, True)) calls)"

definition failed_in :: "call list \<Rightarrow> (call \<times> bool) list \<Rightarrow> bool" where
  \<comment> \<open>the calls of the technique were made up to one that raised\<close>
  "failed_in calls cs = (cs \<noteq> [] \<and> length cs \<le> length calls
     \<and> cs = map (\<lambda>c. (c, True)) (take (length cs - 1) calls) @ [(calls ! (length cs - 1), False)])"

fun tried_in_order :: "bool \<Rightarrow> (string \<times> call list) list \<Rightarrow> (string \<times> (call \<times> bool) list) list \<Rightarrow> bool" where
  \<comment> \<open>the techniques were tried in their order up to the first that completed; \<open>ok\<close> says
      that one completed, and without it all of them were tried and failed\<close>
  "tried_in_order ok [] segs = (segs = [] \<and> \<not> ok)"
| "tried_in_order ok ((name, calls) # rest) [] = False"
| "tried_in_order ok ((name, calls) # rest) ((name', cs) # segs) =
     (name' = name
      \<and> (if segs = [] \<and> ok then completed_by calls cs
         else failed_in calls cs \<and> tried_in_order ok rest segs))"

definition runs_calls :: "(unit, 'w) prog \<Rightarrow> call list \<Rightarrow> bool" where
  \<comment> \<open>a program that makes the calls in their order up to one that raises, and raises only
      then\<close>
  "runs_calls f calls = (\<forall>s. \<exists>es. trace (snd (f s)) = trace s @ es \<and> methods_tried es = []
     \<and> (if isl (fst (f s)) then failed_in calls (calls_of es) else completed_by calls (calls_of es)))"

text \<open>The locator expressions in their priority order, the waits a trace holds, and what
  an expression matches on a page: the element the wait returns, if it is displayed.\<close>

definition locators :: "(by_kind \<times> string) list" where
  "locators = map (Pair By_XPATH) xpath_selectors @ map (Pair By_CSS_SELECTOR) css_selectors"

fun wait_of :: "event \<Rightarrow> (by_kind \<times> string) option" where
  "wait_of (Call (Until_presence t b sel) ok) = Some (b, sel)"
| "wait_of ev = None"

definition waits :: "event list \<Rightarrow> (by_kind \<times> string) list" where
  "waits es = List.map_filter wait_of es"

definition visible_match :: "'w env \<Rightarrow> nat \<Rightarrow> 'w \<Rightarrow> by_kind \<times> string \<Rightarrow> elem option" where
  "visible_match d wait w l =
     (case env_until_presence d wait (fst l) (snd l) w of
        (Inl e, w') \<Rightarrow> None
      | (Inr button, w') \<Rightarrow>
          (case env_is_displayed d button w' of
             (Inr True, w'') \<Rightarrow> Some button
           | (r, w'') \<Rightarrow> None))"

text \<open>Looking at the page does not change it.\<close>

definition static_page :: "'w env \<Rightarrow> nat \<Rightarrow> bool" where
  "static_page d wait = ((\<forall>b sel w. snd (env_until_presence d wait b sel w) = w)
     \<and> (\<forall>e w. snd (env_is_displayed d e w) = w))"

text \<open>One pass of a locator loop on the expression \<open>(b, sel)\<close>, and the result of a loop
  on the expressions \<open>ls\<close>.\<close>

definition loop_step :: "'w env \<Rightarrow> nat \<Rightarrow> by_kind \<Rightarrow> string \<Rightarrow> 'w state \<Rightarrow> elem option \<Rightarrow> 'w state \<Rightarrow> bool" where
  "loop_step d wait b sel s r s' = (\<exists>es. trace s' = trace s @ es \<and> waits es = [(b, sel)]
     \<and> (static_page d wait \<longrightarrow> world s' = world s \<and> visible_match d wait (world s) (b, sel) = r))"

definition first_match :: "'w env \<Rightarrow> nat \<Rightarrow> (by_kind \<times> string) list \<Rightarrow> 'w state
    \<Rightarrow> (exn + elem option) \<times> 'w state \<Rightarrow> bool" where
  "first_match d wait ls s out = (case out of (r, s') \<Rightarrow> \<exists>es. trace s' = trace s @ es
     \<and> (static_page d wait \<longrightarrow> world s' = world s)
     \<and> (case r of
          Inl e \<Rightarrow> False
        | Inr None \<Rightarrow> waits es = ls
            \<and> (static_page d wait \<longrightarrow> (\<forall>l \<in> set ls. visible_match d wait (world s) l = None))
        | Inr (Some button) \<Rightarrow> (\<exists>n < length ls. waits es = take (Suc n) ls
            \<and> (static_page d wait \<longrightarrow> visible_match d wait (world s) (ls ! n) = Some button
                 \<and> (\<forall>j < n. visible_match d wait (world s) (ls ! j) = None)))))"



definition page_text :: "'w env \<Rightarrow> 'w \<Rightarrow> string option" where
  "page_text d w =
     (case env_find_element d By_TAG_NAME ''body'' w of
        (Inl e, w') \<Rightarrow> None
      | (Inr body, w') \<Rightarrow>
          (case env_text d body w' of
             (Inl e, w'') \<Rightarrow> None
           | (Inr body_text, w'') \<Rightarrow> Some body_text))"

definition detected :: "'w env \<Rightarrow> 'w \<Rightarrow> bool" where
  "detected d w = (case page_text d w of None \<Rightarrow> False | Some body_text \<Rightarrow> captcha_found body_text)"




text \<open>The close-button locators that a trace looks up, and the two ways a trace ends when
  the guard has dismissed a challenge: a close button is looked up, its visibility is checked
  and it is clicked; or, after the lookups of all the locators, the Escape key is sent.\<close>

fun lookup_of :: "event \<Rightarrow> string option" where
  "lookup_of (Call (Find_element b sel) ok) = (if b = By_XPATH then Some sel else None)"
| "lookup_of ev = None"

definition lookups :: "event list \<Rightarrow> string list" where
  "lookups es = List.map_filter lookup_of es"



text \<open>The lines that mark the progress of a batch: every line of the activity log, and the
  logger's lines on the visit of a profile, on a message sent and on the pause between two
  accounts.\<close>

fun marker :: "event \<Rightarrow> bool" where
  "marker (Append f lv m) = True"
| "marker (Logger lv [S a, S u]) = (a = ''Processing @'' \<or> a = '' Success @'')"
| "marker (Logger lv [S a, Secs t, S b]) = (a = ''Waiting '')"
| "marker ev = False"

definition processing :: "string \<Rightarrow> event" where
  "processing u = Logger INFO [S ''Processing @'', S u]"

definition succeeded :: "string \<Rightarrow> event" where
  "succeeded u = Logger INFO [S '' Success @'', S u]"

definition retried :: "string \<Rightarrow> nat \<Rightarrow> event" where
  "retried username j =
     Append LOG_FILE WARNING [S '' @'', S username, S '' - Retry '', N j, S ''/'', N MAX_RETRIES]"

definition recorded :: "string \<Rightarrow> bool \<Rightarrow> event" where
  "recorded username ok =
     (if ok then Append LOG_FILE INFO [S '' @'', S username, S '' - SUCCESS'']
      else Append LOG_FILE ERROR [S '' @'', S username, S '' - FAILED''])"

definition waiting :: "nat \<Rightarrow> event" where
  "waiting t = Logger INFO [S ''Waiting '', Secs t, S ''s before next user...'']"

text \<open>The markers of the attempts on one account, and of a batch: an account is tried
  \<open>run_attempts\<close> times, the last attempt sends the message or not, and a pause follows when
  the handle is not the last handle of the list.\<close>

definition account_markers :: "string \<Rightarrow> nat \<Rightarrow> nat \<Rightarrow> bool \<Rightarrow> event list" where
  \<comment> \<open>the markers of \<open>k\<close> attempts for an account, the first of them attempt \<open>a\<close> of the range,
      the last one successful or not\<close>
  "account_markers username a k ok =
     (let u = lstrip_chars ''@'' username in
      concat (map (\<lambda>j. [processing u, retried username j]) [a + 1..<a + k])
      @ processing u # (if ok then [succeeded u, recorded username True]
                          else [recorded username False]))"

record account_run =
  run_account :: string
  run_attempts :: nat
  run_sent :: bool
  run_pause :: nat

definition run_markers :: "string list \<Rightarrow> account_run \<Rightarrow> event list" where
  "run_markers users run =
     account_markers (run_account run) 0 (run_attempts run) (run_sent run)
     @ (if run_account run \<noteq> last users then [waiting (run_pause run)] else [])"

definition batch_markers :: "string list \<Rightarrow> account_run list \<Rightarrow> event list" where
  "batch_markers users runs = concat (map (run_markers users) runs)"

definition valid_run :: "account_run \<Rightarrow> bool" where
  "valid_run run = (1 \<le> run_attempts run \<and> run_attempts run \<le> MAX_RETRIES
     \<and> (run_sent run \<or> run_attempts run = MAX_RETRIES))"

text \<open>The outcome records, the pauses and the visits of an account's profile that a trace
  holds.\<close>

fun outcome_of :: "event \<Rightarrow> (string \<times> bool) option" where
  "outcome_of (Append f lv [S a, S u, S b]) =
     (if a = '' @'' \<and> b = '' - SUCCESS'' then Some (u, True)
      else if a = '' @'' \<and> b = '' - FAILED'' then Some (u, False)
      else None)"
| "outcome_of ev = None"

definition outcomes :: "event list \<Rightarrow> (string \<times> bool) list" where
  "outcomes es = List.map_filter outcome_of es"

fun is_delay :: "event \<Rightarrow> bool" where
  "is_delay (Logger lv [S a, Secs t, S b]) = (a = ''Waiting '')"
| "is_delay ev = False"

definition delays :: "event list \<Rightarrow> nat" where
  "delays es = length (filter is_delay es)"

definition attempts_made :: "string \<Rightarrow> event list \<Rightarrow> nat" where
  "attempts_made username es =
     length (filter (\<lambda>ev. ev = processing (lstrip_chars ''@'' username)) es)"

subsection \<open>Programs and their markers\<close>

text \<open>A program yields \<open>R\<close> when every run of it extends the trace, and \<open>R\<close> holds of its
  result and of the markers it added. A quiet program adds no marker.\<close>

definition yields :: "('a, 'w) prog \<Rightarrow> ((exn + 'a) \<Rightarrow> event list \<Rightarrow> bool) \<Rightarrow> bool" where
  "yields m R = (\<forall>s. \<exists>es. trace (snd (m s)) = trace s @ es \<and> R (fst (m s)) (filter marker es))"

definition quiet :: "('a, 'w) prog \<Rightarrow> bool" where
  "quiet m = yields m (\<lambda>r ms. ms = [])"

definition quiet_total :: "('a, 'w) prog \<Rightarrow> bool" where
  "quiet_total m = yields m (\<lambda>r ms. ms = [] \<and> \<not> isl r)"

definition log_entry :: "level \<Rightarrow> msg \<Rightarrow> event list" where
  \<comment> \<open>what a call of \<open>log_activity\<close> adds to the trace when the entry is written\<close>
  "log_entry lv m = [Call (Append_file LOG_FILE) True, Append LOG_FILE lv m,
     Logger (if lv = ERROR then ERROR else if lv = WARNING then WARNING else INFO) m]"

definition writable :: "'w env \<Rightarrow> bool" where
  \<comment> \<open>every entry can be appended to the activity log\<close>
  "writable d = (\<forall>w. \<not> isl (fst (env_append d LOG_FILE w)))"

definition after_attempts :: "string \<Rightarrow> nat \<Rightarrow> nat \<times> nat \<Rightarrow> (exn + nat \<times> nat) \<Rightarrow> event list \<Rightarrow> bool" where
  "after_attempts username a counts r ms = (\<exists>k ok. 1 \<le> k \<and> a + k \<le> MAX_RETRIES
     \<and> (ok \<or> a + k = MAX_RETRIES)
     \<and> r = Inr (if ok then (fst counts + 1, snd counts) else (fst counts, snd counts + 1))
     \<and> ms = account_markers username a k ok)"

definition after_users :: "string list \<Rightarrow> string list \<Rightarrow> nat \<times> nat \<Rightarrow> (exn + nat \<times> nat)
    \<Rightarrow> event list \<Rightarrow> bool" where
  "after_users users rest counts r ms = (\<exists>runs. map run_account runs = rest \<and> list_all valid_run runs
     \<and> r = Inr (fst counts + length (filter run_sent runs),
                snd counts + length (filter (\<lambda>run. \<not> run_sent run) runs))
     \<and> ms = batch_markers users runs)"

subsection \<open>Environments of the examples\<close>

definition sample_list :: string where
  "sample_list = ''user1\<newline>#comment\<newline>\<newline>@user2\<newline>''"

definition calm :: "nat env" where
  \<comment> \<open>every call returns; the state counts the pages loaded\<close>
  "calm = \<lparr>
     env_chrome = (\<lambda>w. (Inr (), w)),
     env_execute_cdp_cmd = (\<lambda>w. (Inr (), w)),
     env_get = (\<lambda>url w. (Inr (), Suc w)),
     env_add_cookie = (\<lambda>cookie w. (Inr (), w)),
     env_find_element = (\<lambda>b sel w. (Inr 1, w)),
     env_until_presence = (\<lambda>wait b sel w. (Inr 2, w)),
     env_text = (\<lambda>e w. (Inr ''For You'', w)),
     env_is_displayed = (\<lambda>e w. (Inr True, w)),
     env_click = (\<lambda>e w. (Inr (), w)),
     env_send_keys = (\<lambda>e k w. (Inr (), w)),
     env_execute_script = (\<lambda>script e w. (Inr (), w)),
     env_actions_send_keys = (\<lambda>k w. (Inr (), w)),
     env_actions_click = (\<lambda>e w. (Inr (), w)),
     env_save_screenshot = (\<lambda>name w. (Inr (), w)),
     env_quit = (\<lambda>w. (Inr (), w)),
     env_read_cookies = (\<lambda>name w. (Inr [], w)),
     env_read_text = (\<lambda>name w. (Inr sample_list, w)),
     env_append = (\<lambda>name w. (Inr (), w)),
     env_uniform = (\<lambda>a b w. (a, w)),
     env_choice = (\<lambda>n w. (0, w))\<rparr>"

definition start :: "nat state" where
  "start = \<lparr>world = 0, trace = []\<rparr>"

definition sticky :: "nat env" where
  \<comment> \<open>an overlay takes every direct click\<close>
  "sticky = calm\<lparr>env_click := (\<lambda>e w. (Inl ElementClickInterceptedException, w))\<rparr>"

definition layered :: "nat env" where
  \<comment> \<open>the first expression finds a hidden button, the fifth the visible one\<close>
  "layered = calm\<lparr>
     env_until_presence := (\<lambda>wait b sel w.
        if (b, sel) = locators ! 0 then (Inr 1, w)
        else if (b, sel) = locators ! 4 then (Inr 5, w)
        else (Inl TimeoutException, w)),
     env_is_displayed := (\<lambda>e w. (Inr (e = 5), w))\<rparr>"




definition offline :: "nat env" where
  \<comment> \<open>no page loads\<close>
  "offline = calm\<lparr>env_get := (\<lambda>url w. (Inl WebDriverException, w))\<rparr>"

definition vacant :: "nat env" where
  \<comment> \<open>an account list with a comment and a blank line only\<close>
  "vacant = calm\<lparr>env_read_text := (\<lambda>name w. (Inr ''# nobody yet\<newline>\<newline>'', w))\<rparr>"

definition flaky :: "nat env" where
  \<comment> \<open>the first page load fails, the later ones succeed\<close>
  "flaky = calm\<lparr>env_get := (\<lambda>url w. (if w = 0 then Inl WebDriverException else Inr (), Suc w))\<rparr>"

section \<open>Properties\<close>

subsection \<open>The account list\<close>

lemma strip_Nil_iff: "strip line = [] \<longleftrightarrow> is_blank_line line"
proof -
  let ?mid = "dropWhile isspace line"
  have "dropWhile isspace (rev ?mid) = [] \<longleftrightarrow> ?mid = []"
  proof
    assume a: "dropWhile isspace (rev ?mid) = []"
    show "?mid = []"
    proof (rule ccontr)
      assume n: "?mid \<noteq> []"
      then have "\<not> isspace (hd ?mid)" by (rule hd_dropWhile)
      moreover have "hd ?mid \<in> set (rev ?mid)" using n by simp
      moreover have "\<forall>c \<in> set (rev ?mid). isspace c"
        using a unfolding dropWhile_eq_Nil_conv .
      ultimately show False by blast
    qed
  next
    assume m: "?mid = []"
    show "dropWhile isspace (rev ?mid) = []" unfolding m by simp
  qed
  moreover have "?mid = [] \<longleftrightarrow> (\<forall>c \<in> set line. isspace c)"
    by (rule dropWhile_eq_Nil_conv)
  ultimately show ?thesis
    by (simp add: strip_def rstrip_def lstrip_def is_blank_line_def)
qed

lemma startswith_hash: "startswith line ''#'' \<longleftrightarrow> is_comment_line line"
  by (cases line) (auto simp: startswith_def is_comment_line_def)

lemma surrounded_strip: "surrounded line (strip line)"
proof -
  let ?mid = "dropWhile isspace line"
  let ?t = "rev (dropWhile isspace (rev ?mid))"
  let ?post = "rev (takeWhile isspace (rev ?mid))"
  have mid: "?mid = ?t @ ?post"
    by (metis rev_append rev_rev_ident takeWhile_dropWhile_id)
  have line: "line = takeWhile isspace line @ ?t @ ?post"
    using mid by (metis takeWhile_dropWhile_id)
  have pre: "\<forall>c \<in> set (takeWhile isspace line). isspace c"
    by (auto dest: set_takeWhileD)
  have post: "\<forall>c \<in> set ?post. isspace c"
    by (auto dest: set_takeWhileD)
  have ends: "\<not> isspace (hd ?t) \<and> \<not> isspace (last ?t)" if ne: "?t \<noteq> []"
  proof
    have "?mid \<noteq> []" using ne by (cases "?mid = []") simp_all
    then have "\<not> isspace (hd ?mid)" by (rule hd_dropWhile)
    moreover have "hd ?mid = hd ?t" using mid ne by (metis hd_append2)
    ultimately show "\<not> isspace (hd ?t)" by simp
    have "dropWhile isspace (rev ?mid) \<noteq> []" using ne by simp
    then have "\<not> isspace (hd (dropWhile isspace (rev ?mid)))" by (rule hd_dropWhile)
    then show "\<not> isspace (last ?t)" using ne by (simp add: last_rev)
  qed
  show ?thesis
    unfolding surrounded_def strip_def rstrip_def lstrip_def
    using line pre post ends by blast
qed

lemma takeWhile_eq_replicate: "takeWhile (\<lambda>c. c = a) xs = replicate (length (takeWhile (\<lambda>c. c = a) xs)) a"
  by (induction xs) auto

lemma without_marker_lstrip: "without_marker t (lstrip_chars ''@'' t)"
proof -
  let ?u = "dropWhile (\<lambda>c. c = CHR ''@'') t"
  have "t = takeWhile (\<lambda>c. c = CHR ''@'') t @ ?u" by simp
  then have "t = replicate (length (takeWhile (\<lambda>c. c = CHR ''@'') t)) CHR ''@'' @ ?u"
    using takeWhile_eq_replicate [of "CHR ''@''" t] by simp
  moreover have "?u \<noteq> [] \<longrightarrow> hd ?u \<noteq> CHR ''@''"
    using hd_dropWhile [of "\<lambda>c. c = CHR ''@''" t] by blast
  ultimately show ?thesis
    unfolding without_marker_def lstrip_chars_def by auto
qed

lemma dropWhile_prefix_all:
  assumes "\<forall>c \<in> set pre. P c" and "rest = [] \<or> \<not> P (hd rest)"
  shows "dropWhile P (pre @ rest) = rest"
proof -
  have "dropWhile P (pre @ rest) = dropWhile P rest"
    using assms(1) by simp
  also have "\<dots> = rest"
    using assms(2) by (cases rest) auto
  finally show ?thesis .
qed

lemma surrounded_unique:
  assumes "surrounded line t"
  shows "t = strip line"
proof -
  from assms obtain pre post where line: "line = pre @ t @ post"
    and pre: "\<forall>c \<in> set pre. isspace c" and post: "\<forall>c \<in> set post. isspace c"
    and ends: "t \<noteq> [] \<longrightarrow> \<not> isspace (hd t) \<and> \<not> isspace (last t)"
    unfolding surrounded_def by blast
  show ?thesis
  proof (cases "t = []")
    case True
    then have "is_blank_line line"
      using line pre post by (auto simp: is_blank_line_def)
    then have "strip line = []" by (simp add: strip_Nil_iff)
    then show ?thesis using True by simp
  next
    case False
    then have "\<not> isspace (hd (t @ post))" using ends by simp
    then have mid: "dropWhile isspace line = t @ post"
      unfolding line using pre by (intro dropWhile_prefix_all) auto
    have "\<not> isspace (hd (rev t))" using False ends by (simp add: hd_rev)
    then have "dropWhile isspace (rev post @ rev t) = rev t"
      using post by (intro dropWhile_prefix_all) auto
    then show ?thesis
      by (simp add: strip_def rstrip_def lstrip_def mid)
  qed
qed

lemma without_marker_unique:
  assumes "without_marker t u"
  shows "u = lstrip_chars ''@'' t"
proof -
  from assms obtain k where t: "t = replicate k CHR ''@'' @ u"
    and u: "u \<noteq> [] \<longrightarrow> hd u \<noteq> CHR ''@''"
    unfolding without_marker_def by blast
  have "dropWhile (\<lambda>c. c = CHR ''@'') (replicate k CHR ''@'' @ u) = u"
    using u by (intro dropWhile_prefix_all) auto
  then show ?thesis by (simp add: lstrip_chars_def t)
qed

lemma handle_of_iff: "handle_of line u \<longleftrightarrow> u = lstrip_chars ''@'' (strip line)"
proof
  assume "handle_of line u"
  then obtain t where "surrounded line t" "without_marker t u"
    unfolding handle_of_def by blast
  then show "u = lstrip_chars ''@'' (strip line)"
    using surrounded_unique without_marker_unique by blast
next
  assume "u = lstrip_chars ''@'' (strip line)"
  then show "handle_of line u"
    unfolding handle_of_def using surrounded_strip without_marker_lstrip by blast
qed

lemma users_of_lines_filter:
  "users_of_lines f = map (\<lambda>line. lstrip_chars ''@'' (strip line)) (filter is_account_line f)"
  unfolding users_of_lines_def is_account_line_def
  by (induction f) (simp_all add: strip_Nil_iff startswith_hash)

lemma load_users_result:
  assumes "env_read_text d USERS_FILE (world s) = (Inr content, w)"
  shows "fst (load_users d s) = Inr (users_of_lines (file_lines content))"
  using assms
  by (simp add: load_users_def try_except_def bind_def env_call_def logger_def emit_def ret_def Let_def)

text \<open>
  C4. \<open>load_users\<close> returns, in the order of the file, one handle for each line that is
  neither blank nor a comment (a line starting with \<open>#\<close>), and nothing else; the handle is
  the line without its surrounding whitespace and then without its leading \<open>@\<close> marker.
  The lines \<open>user1\<close>, \<open>#comment\<close>, an empty line and \<open>@user2\<close> give \<open>user1\<close> and \<open>user2\<close>.
\<close>

theorem load_users_account_lines:
  "list_all2 handle_of (filter is_account_line f) (users_of_lines f)
   \<and> (env_read_text d USERS_FILE (world s) = (Inr content, w)
        \<longrightarrow> fst (load_users d s) = Inr (users_of_lines (file_lines content)))
   \<and> users_of_lines [''user1'', ''#comment'', [], ''@user2''] = [''user1'', ''user2'']"
proof (intro conjI impI)
  show "list_all2 handle_of (filter is_account_line f) (users_of_lines f)"
    unfolding users_of_lines_filter
    by (simp add: list_all2_conv_all_nth handle_of_iff)
  show "fst (load_users d s) = Inr (users_of_lines (file_lines content))"
    if "env_read_text d USERS_FILE (world s) = (Inr content, w)"
    using that by (rule load_users_result)
  show "users_of_lines [''user1'', ''#comment'', [], ''@user2''] = [''user1'', ''user2'']"
    by code_simp
qed

lemma sample_list_users: "users_of_lines (file_lines sample_list) = [''user1'', ''user2'']"
  by code_simp

theorem load_users_account_lines_witness:
  "list_all2 handle_of (filter is_account_line [''user1'', ''#comment'', [], ''@user2''])
     (users_of_lines [''user1'', ''#comment'', [], ''@user2''])
   \<and> env_read_text calm USERS_FILE (world start) = (Inr sample_list, 0)
   \<and> fst (load_users calm start) = Inr [''user1'', ''user2'']"
proof -
  have r: "env_read_text calm USERS_FILE (world start) = (Inr sample_list, 0)"
    by (simp add: calm_def start_def)
  note t = load_users_account_lines [of "[''user1'', ''#comment'', [], ''@user2'']" calm start sample_list 0]
  have a: "list_all2 handle_of (filter is_account_line [''user1'', ''#comment'', [], ''@user2''])
     (users_of_lines [''user1'', ''#comment'', [], ''@user2''])"
    using t by blast
  have x: "fst (load_users calm start) = Inr (users_of_lines (file_lines sample_list))"
    using t r by blast
  from a r x show ?thesis
    unfolding sample_list_users by blast
qed

subsection \<open>The next trigger instant\<close>

lemma next_run_at_start_rule:
  "time_lt (tod now) target \<or> day now < MAXORDINAL
   \<Longrightarrow> next_run_at_start now target = Inr (spec_next_trigger now target)"
  by (auto simp: next_run_at_start_def spec_next_trigger_def combine_def add_days_def Let_def)

lemma next_run_at_heartbeat_rule:
  "time_lt (tod now) target \<or> day now < MAXORDINAL
   \<Longrightarrow> next_run_at_heartbeat now target = Inr (spec_next_trigger now target)"
  by (auto simp: next_run_at_heartbeat_def spec_next_trigger_def combine_def add_days_def)

text \<open>
  C9. The next trigger instant is today's date with the configured time of day when the
  current time of day is strictly before it, and tomorrow's date with the configured time
  of day otherwise, both when the scheduler starts and when a heartbeat (due 900 seconds
  after the last one) computes it anew. Tomorrow must be a date: after the configured time
  on the last day of the year 9999 the addition of a day overflows.
\<close>

theorem next_trigger_rule:
  assumes "time_lt (tod now) target \<or> day now < MAXORDINAL"
  shows "next_run_at_start now target = Inr (spec_next_trigger now target)
    \<and> next_run_at_heartbeat now target = Inr (spec_next_trigger now target)
    \<and> (heartbeat_due now last_check
         \<longrightarrow> heartbeat now last_check target = Inr (Some (spec_next_trigger now target), now))
    \<and> (\<not> heartbeat_due now last_check
         \<longrightarrow> heartbeat now last_check target = Inr (None, last_check))"
  using assms
  by (simp add: next_run_at_start_rule next_run_at_heartbeat_rule heartbeat_def)

theorem next_trigger_rule_witness:
  "(time_lt (tod \<lparr>day = 739558, tod = dt_time 21 0\<rparr>) target_time \<or> (739558 :: nat) < MAXORDINAL)
   \<and> next_run_at_start \<lparr>day = 739558, tod = dt_time 21 0\<rparr> target_time
       = Inr \<lparr>day = 739559, tod = dt_time 21 0\<rparr>
   \<and> next_run_at_heartbeat \<lparr>day = 739558, tod = dt_time 21 0\<rparr> target_time
       = Inr \<lparr>day = 739559, tod = dt_time 21 0\<rparr>
   \<and> heartbeat_due \<lparr>day = 739558, tod = dt_time 21 0\<rparr> \<lparr>day = 739558, tod = dt_time 20 45\<rparr>
   \<and> heartbeat \<lparr>day = 739558, tod = dt_time 21 0\<rparr> \<lparr>day = 739558, tod = dt_time 20 45\<rparr> target_time
       = Inr (Some \<lparr>day = 739559, tod = dt_time 21 0\<rparr>, \<lparr>day = 739558, tod = dt_time 21 0\<rparr>)"
proof -
  have h: "time_lt (tod \<lparr>day = 739558, tod = dt_time 21 0\<rparr>) target_time
      \<or> day \<lparr>day = 739558, tod = dt_time 21 0\<rparr> < MAXORDINAL"
    by (simp add: MAXORDINAL_def)
  have d: "heartbeat_due \<lparr>day = 739558, tod = dt_time 21 0\<rparr> \<lparr>day = 739558, tod = dt_time 20 45\<rparr>"
    by (simp add: heartbeat_due_def microseconds_between_def dt_time_def)
  have t: "spec_next_trigger \<lparr>day = 739558, tod = dt_time 21 0\<rparr> target_time
      = \<lparr>day = 739559, tod = dt_time 21 0\<rparr>"
    by (simp add: spec_next_trigger_def target_time_def SEND_TIME_def time_lt_def dt_time_def)
  from next_trigger_rule [OF h, of "\<lparr>day = 739558, tod = dt_time 20 45\<rparr>"] d t
  show ?thesis by (simp add: MAXORDINAL_def)
qed

subsection \<open>Clicking the message button\<close>

lemma observe_append [simp]:
  "methods_tried (es @ es') = methods_tried es @ methods_tried es'"
  "methods_failed (es @ es') = methods_failed es @ methods_failed es'"
  "methods_clicked (es @ es') = methods_clicked es @ methods_clicked es'"
  "clicks_performed (es @ es') = clicks_performed es + clicks_performed es'"
  by (simp_all add: methods_tried_def methods_failed_def methods_clicked_def clicks_performed_def
      List.map_filter_def)

lemma observe_Nil [simp]:
  "methods_tried [] = []" "methods_failed [] = []" "methods_clicked [] = []" "clicks_performed [] = 0"
  by (simp_all add: methods_tried_def methods_failed_def methods_clicked_def clicks_performed_def
      List.map_filter_def)

lemma observe_Cons [simp]:
  "methods_tried (ev # es) = (case tried_name ev of None \<Rightarrow> methods_tried es | Some n \<Rightarrow> n # methods_tried es)"
  "methods_failed (ev # es) = (case failed_name ev of None \<Rightarrow> methods_failed es | Some n \<Rightarrow> n # methods_failed es)"
  "methods_clicked (ev # es) = (case clicked_name ev of None \<Rightarrow> methods_clicked es | Some n \<Rightarrow> n # methods_clicked es)"
  "clicks_performed (ev # es) = (if performs_click ev then Suc (clicks_performed es) else clicks_performed es)"
  by (simp_all add: methods_tried_def methods_failed_def methods_clicked_def clicks_performed_def
      split: option.splits)

lemma click_loop_step:
  "click_loop ((name, f) # rest) s =
     (case f (s\<lparr>trace := trace s @ [Logger DEBUG [S ''  Trying: '', S name]]\<rparr>) of
        (Inr u, s1) \<Rightarrow>
          (Inr True, s1\<lparr>trace := trace s1 @ [Logger INFO [S '' Clicked via '', S name], Sleep 2000]\<rparr>)
      | (Inl e, s1) \<Rightarrow>
          click_loop rest (s1\<lparr>trace := trace s1 @ [Logger DEBUG [S ''  '', S name, S '' failed: '', Exn e]]\<rparr>))"
  by (simp add: bind_def try_except_def logger_def emit_def sleep_def ret_def
      split: prod.splits sum.splits)

declare click_loop.simps [simp del]

lemma click_loop_spec:
  assumes "\<forall>(name, f) \<in> set ms. click_method f"
  shows "\<exists>es. trace (snd (click_loop ms s)) = trace s @ es
     \<and> methods_tried es = take (length (methods_tried es)) (map fst ms)
     \<and> (if fst (click_loop ms s) = Inr True
         then methods_tried es \<noteq> []
            \<and> methods_failed es = butlast (methods_tried es)
            \<and> methods_clicked es = [last (methods_tried es)]
            \<and> clicks_performed es = 1
         else fst (click_loop ms s) = Inr False
            \<and> methods_tried es = map fst ms
            \<and> methods_failed es = map fst ms
            \<and> methods_clicked es = []
            \<and> clicks_performed es = 0)"
  using assms
proof (induction ms arbitrary: s)
  case Nil
  then show ?case by (simp add: ret_def click_loop.simps)
next
  case (Cons m ms)
  obtain name f where m: "m = (name, f)" by (cases m)
  let ?s0 = "s\<lparr>trace := trace s @ [Logger DEBUG [S ''  Trying: '', S name]]\<rparr>"
  from Cons.prems m have "click_method f" by simp
  then obtain es where es: "trace (snd (f ?s0)) = trace ?s0 @ es"
    "methods_tried es = []" "methods_failed es = []" "methods_clicked es = []"
    "clicks_performed es = (if isl (fst (f ?s0)) then 0 else 1)"
    unfolding click_method_def by blast
  obtain r s1 where f: "f ?s0 = (r, s1)" by (cases "f ?s0")
  show ?case
  proof (cases r)
    case (Inr u)
    let ?es = "Logger DEBUG [S ''  Trying: '', S name] # es
        @ [Logger INFO [S '' Clicked via '', S name], Sleep 2000]"
    have "trace (snd (click_loop (m # ms) s)) = trace s @ ?es"
      "fst (click_loop (m # ms) s) = Inr True"
      using f Inr es(1) by (simp_all add: m click_loop_step)
    moreover have "methods_tried ?es = [name]" "methods_failed ?es = []"
      "methods_clicked ?es = [name]" "clicks_performed ?es = 1"
      using es f Inr by simp_all
    ultimately show ?thesis
      by (intro exI [of _ ?es]) (simp add: m)
  next
    case (Inl e)
    let ?s2 = "s1\<lparr>trace := trace s1 @ [Logger DEBUG [S ''  '', S name, S '' failed: '', Exn e]]\<rparr>"
    from Cons.prems have "\<forall>(name, f) \<in> set ms. click_method f" by simp
    from Cons.IH [OF this, of ?s2]
    obtain es' where es': "trace (snd (click_loop ms ?s2)) = trace ?s2 @ es'"
      "methods_tried es' = take (length (methods_tried es')) (map fst ms)"
      "if fst (click_loop ms ?s2) = Inr True
         then methods_tried es' \<noteq> []
            \<and> methods_failed es' = butlast (methods_tried es')
            \<and> methods_clicked es' = [last (methods_tried es')]
            \<and> clicks_performed es' = 1
         else fst (click_loop ms ?s2) = Inr False
            \<and> methods_tried es' = map fst ms
            \<and> methods_failed es' = map fst ms
            \<and> methods_clicked es' = []
            \<and> clicks_performed es' = 0"
      by blast
    let ?es = "Logger DEBUG [S ''  Trying: '', S name] # es
        @ Logger DEBUG [S ''  '', S name, S '' failed: '', Exn e] # es'"
    have loop: "click_loop (m # ms) s = click_loop ms ?s2"
      using f Inl by (simp add: m click_loop_step)
    have tr: "trace (snd (click_loop (m # ms) s)) = trace s @ ?es"
      using es'(1) es(1) f by (simp add: loop)
    have obs: "methods_tried ?es = name # methods_tried es'"
      "methods_failed ?es = name # methods_failed es'"
      "methods_clicked ?es = methods_clicked es'"
      "clicks_performed ?es = clicks_performed es'"
      using es f Inl by simp_all
    have fst_eq: "fst (click_loop (m # ms) s) = fst (click_loop ms ?s2)"
      by (simp add: loop)
    have names: "map fst (m # ms) = name # map fst ms"
      by (simp add: m)
    show ?thesis
    proof (intro exI [of _ ?es] conjI)
      show "trace (snd (click_loop (m # ms) s)) = trace s @ ?es" by (rule tr)
      show "methods_tried ?es = take (length (methods_tried ?es)) (map fst (m # ms))"
        unfolding obs names using es'(2) by simp
      show "if fst (click_loop (m # ms) s) = Inr True
         then methods_tried ?es \<noteq> []
            \<and> methods_failed ?es = butlast (methods_tried ?es)
            \<and> methods_clicked ?es = [last (methods_tried ?es)]
            \<and> clicks_performed ?es = 1
         else fst (click_loop (m # ms) s) = Inr False
            \<and> methods_tried ?es = map fst (m # ms)
            \<and> methods_failed ?es = map fst (m # ms)
            \<and> methods_clicked ?es = []
            \<and> clicks_performed ?es = 0"
        unfolding obs names fst_eq using es'(3) by (simp split: if_splits)
    qed
  qed
qed

lemma click_method_call:
  assumes "\<And>ok. tried_name (Call c ok) = None \<and> failed_name (Call c ok) = None
      \<and> clicked_name (Call c ok) = None \<and> performs_click (Call c ok) = ok"
  shows "click_method (env_call c op)"
  unfolding click_method_def
proof
  fix s :: "'a state"
  obtain r w where op: "op (world s) = (r, w)" by (cases "op (world s)")
  show "\<exists>es. trace (snd (env_call c op s)) = trace s @ es
     \<and> methods_tried es = [] \<and> methods_failed es = [] \<and> methods_clicked es = []
     \<and> clicks_performed es = (if isl (fst (env_call c op s)) then 0 else 1)"
    using assms [of "\<not> isl r"]
    by (intro exI [of _ "[Call c (\<not> isl r)]"]) (simp add: env_call_def op)
qed

lemma click_method_scroll:
  "click_method (bind (execute_script d ''arguments[0].scrollIntoView({block: 'center'});'' b)
     (\<lambda>_. bind (sleep 500) (\<lambda>_. click d b)))"
  unfolding click_method_def
proof
  fix s :: "'a state"
  let ?script = "''arguments[0].scrollIntoView({block: 'center'});''"
  let ?m = "bind (execute_script d ?script b) (\<lambda>_. bind (sleep 500) (\<lambda>_. click d b))"
  obtain r w where scr: "env_execute_script d ?script b (world s) = (r, w)"
    by (cases "env_execute_script d ?script b (world s)")
  obtain r' w' where cl: "env_click d b w = (r', w')" by (cases "env_click d b w")
  show "\<exists>es. trace (snd (?m s)) = trace s @ es
     \<and> methods_tried es = [] \<and> methods_failed es = [] \<and> methods_clicked es = []
     \<and> clicks_performed es = (if isl (fst (?m s)) then 0 else 1)"
  proof (cases r)
    case (Inl e)
    then show ?thesis
      using scr
      by (intro exI [of _ "[Call (Execute_script ?script b) False]"])
         (simp add: bind_def execute_script_def env_call_def)
  next
    case (Inr u)
    then show ?thesis
      using scr cl
      by (intro exI [of _ "[Call (Execute_script ?script b) True, Sleep 500, Call (Click b) (\<not> isl r')]"])
         (simp add: bind_def execute_script_def env_call_def sleep_def emit_def click_def)
  qed
qed

lemma click_method_primitives:
  "click_method (click d b)"
  "click_method (execute_script d ''arguments[0].click();'' b)"
  "click_method (actions_click d b)"
  unfolding click_def execute_script_def actions_click_def
  by (rule click_method_call, simp)+

lemma click_methods:
  "\<forall>(name, f) \<in> set (methods d b). click_method f"
  by (simp add: methods_def click_method_scroll click_method_primitives)

lemma methods_names: "map fst (methods d b) = method_names"
  by (simp add: methods_def method_names_def)

lemma calls_of_simps [simp]:
  "calls_of [] = []"
  "calls_of (ev # es) = (case call_of ev of None \<Rightarrow> calls_of es | Some c \<Rightarrow> c # calls_of es)"
  by (simp_all add: calls_of_def List.map_filter_def split: option.splits)

lemma sections_quiet_append:
  "methods_tried es = [] \<Longrightarrow> sections (es @ es') = (calls_of es @ fst (sections es'), snd (sections es'))"
proof (induction es)
  case Nil
  show ?case by simp
next
  case (Cons ev es)
  from Cons.prems have ev: "tried_name ev = None" and es: "methods_tried es = []"
    by (simp_all split: option.splits)
  show ?case
    using Cons.IH [OF es] ev by (simp split: option.splits)
qed

lemma sections_plain_snoc:
  "tried_name ev = None \<Longrightarrow> call_of ev = None \<Longrightarrow> sections (es @ [ev]) = sections es"
  by (induction es) (simp_all split: prod.splits option.splits)

lemma tried_in_order_True_Nil: "\<not> tried_in_order True techs []"
  by (cases techs) auto

lemma click_loop_order:
  assumes "list_all2 (\<lambda>(name, f) (name', calls). name' = name \<and> runs_calls f calls) ms techs"
  shows "\<exists>es ok segs. trace (snd (click_loop ms s)) = trace s @ es
     \<and> fst (click_loop ms s) = Inr ok
     \<and> sections es = ([], segs) \<and> tried_in_order ok techs segs"
  using assms
proof (induction ms arbitrary: techs s)
  case Nil
  then show ?case by (auto simp: ret_def click_loop.simps)
next
  case (Cons m ms)
  obtain name f where m: "m = (name, f)" by (cases m)
  from Cons.prems m obtain calls rest where techs: "techs = (name, calls) # rest"
    and f_calls: "runs_calls f calls"
    and rest: "list_all2 (\<lambda>(name, f) (name', calls). name' = name \<and> runs_calls f calls) ms rest"
    by (auto simp: list_all2_Cons1)
  let ?trying = "Logger DEBUG [S ''  Trying: '', S name]"
  let ?s0 = "s\<lparr>trace := trace s @ [?trying]\<rparr>"
  from f_calls obtain es where es: "trace (snd (f ?s0)) = trace ?s0 @ es"
    "methods_tried es = []"
    "if isl (fst (f ?s0)) then failed_in calls (calls_of es) else completed_by calls (calls_of es)"
    unfolding runs_calls_def by blast
  obtain r s1 where f: "f ?s0 = (r, s1)" by (cases "f ?s0")
  show ?case
  proof (cases r)
    case (Inr u)
    let ?tail = "[Logger INFO [S '' Clicked via '', S name], Sleep 2000]"
    let ?es = "?trying # es @ ?tail"
    have "trace (snd (click_loop (m # ms) s)) = trace s @ ?es"
      "fst (click_loop (m # ms) s) = Inr True"
      using f Inr es(1) by (simp_all add: m click_loop_step)
    moreover have "sections ?es = ([], [(name, calls_of es)])"
      by (simp add: sections_quiet_append [OF es(2)])
    moreover have "tried_in_order True techs [(name, calls_of es)]"
      using es(3) f Inr by (simp add: techs)
    ultimately show ?thesis by blast
  next
    case (Inl e)
    let ?fail = "Logger DEBUG [S ''  '', S name, S '' failed: '', Exn e]"
    let ?s2 = "s1\<lparr>trace := trace s1 @ [?fail]\<rparr>"
    from Cons.IH [OF rest, of ?s2]
    obtain es' ok segs where es': "trace (snd (click_loop ms ?s2)) = trace ?s2 @ es'"
      "fst (click_loop ms ?s2) = Inr ok" "sections es' = ([], segs)" "tried_in_order ok rest segs"
      by blast
    let ?es = "?trying # es @ ?fail # es'"
    have loop: "click_loop (m # ms) s = click_loop ms ?s2"
      using f Inl by (simp add: m click_loop_step)
    have "trace (snd (click_loop (m # ms) s)) = trace s @ ?es"
      using es'(1) es(1) f by (simp add: loop)
    moreover have "fst (click_loop (m # ms) s) = Inr ok"
      using es'(2) by (simp add: loop)
    moreover have "sections ?es = ([], (name, calls_of es) # segs)"
      by (simp add: sections_quiet_append [OF es(2)] es'(3))
    moreover have "tried_in_order ok techs ((name, calls_of es) # segs)"
    proof -
      have "\<not> (segs = [] \<and> ok)" using es'(4) tried_in_order_True_Nil by auto
      moreover have "failed_in calls (calls_of es)" using es(3) f Inl by simp
      ultimately show ?thesis using es'(4) by (auto simp: techs)
    qed
    ultimately show ?thesis by blast
  qed
qed

lemma runs_calls_one: "runs_calls (env_call c op) [c]"
  unfolding runs_calls_def
proof
  fix s :: "'a state"
  obtain r w where op: "op (world s) = (r, w)" by (cases "op (world s)")
  show "\<exists>es. trace (snd (env_call c op s)) = trace s @ es \<and> methods_tried es = []
     \<and> (if isl (fst (env_call c op s)) then failed_in [c] (calls_of es)
         else completed_by [c] (calls_of es))"
    by (intro exI [of _ "[Call c (\<not> isl r)]"])
       (simp add: env_call_def op failed_in_def completed_by_def)
qed

lemma runs_calls_scroll:
  "runs_calls (bind (execute_script d ''arguments[0].scrollIntoView({block: 'center'});'' b)
     (\<lambda>_. bind (sleep 500) (\<lambda>_. click d b)))
     [Execute_script ''arguments[0].scrollIntoView({block: 'center'});'' b, Click b]"
  unfolding runs_calls_def
proof
  fix s :: "'a state"
  let ?script = "''arguments[0].scrollIntoView({block: 'center'});''"
  let ?m = "bind (execute_script d ?script b) (\<lambda>_. bind (sleep 500) (\<lambda>_. click d b))"
  let ?calls = "[Execute_script ?script b, Click b]"
  obtain r w where scr: "env_execute_script d ?script b (world s) = (r, w)"
    by (cases "env_execute_script d ?script b (world s)")
  obtain r' w' where cl: "env_click d b w = (r', w')" by (cases "env_click d b w")
  show "\<exists>es. trace (snd (?m s)) = trace s @ es \<and> methods_tried es = []
     \<and> (if isl (fst (?m s)) then failed_in ?calls (calls_of es) else completed_by ?calls (calls_of es))"
  proof (cases r)
    case (Inl e)
    then show ?thesis
      using scr
      by (intro exI [of _ "[Call (Execute_script ?script b) False]"])
         (simp add: bind_def execute_script_def env_call_def failed_in_def)
  next
    case (Inr u)
    then show ?thesis
      using scr cl
      by (intro exI [of _ "[Call (Execute_script ?script b) True, Sleep 500, Call (Click b) (\<not> isl r')]"])
         (simp add: bind_def execute_script_def env_call_def sleep_def emit_def click_def
            failed_in_def completed_by_def)
  qed
qed

lemma methods_techniques:
  "list_all2 (\<lambda>(name, f) (name', calls). name' = name \<and> runs_calls f calls)
     (methods d b) (techniques b)"
  unfolding methods_def techniques_def
  by (simp add: runs_calls_scroll)
     (simp add: click_def execute_script_def actions_click_def runs_calls_one)

text \<open>
  C6. For a located element, \<open>click_message_button\<close> tries the four click techniques in
  their fixed order on that element: a direct click; a scroll into view, then a click; a
  click injected by a script; a pointer movement and click. It makes no call before the
  first method, and under each method the calls of its technique, in order, up to the first
  call that raises. It stops at the first method whose calls all return and then returns
  True: every method tried before it failed, no other method completed, and exactly one
  call that clicks the button returned. Otherwise it returns False, all four methods were
  tried and failed, and no call that clicks returned. It never raises.
\<close>

theorem click_message_button_first_success:
  "case click_message_button d (Some b) s of (r, s') \<Rightarrow>
   \<exists>es ok. trace s' = trace s @ es
     \<and> r = Inr ok
     \<and> leading_calls es = []
     \<and> tried_in_order ok (techniques b) (method_calls es)
     \<and> methods_tried es = take (length (methods_tried es)) method_names
     \<and> methods_tried es \<noteq> []
     \<and> (if ok
         then methods_failed es = butlast (methods_tried es)
            \<and> methods_clicked es = [last (methods_tried es)]
            \<and> clicks_performed es = 1
         else methods_tried es = method_names
            \<and> methods_failed es = method_names
            \<and> methods_clicked es = []
            \<and> clicks_performed es = 0)"
proof -
  let ?start = "Logger INFO [S ''Clicking Message button...'']"
  let ?s0 = "s\<lparr>trace := trace s @ [?start]\<rparr>"
  from click_loop_spec [OF click_methods, of d b ?s0]
  obtain es where es: "trace (snd (click_loop (methods d b) ?s0)) = trace ?s0 @ es"
      "methods_tried es = take (length (methods_tried es)) method_names"
      "if fst (click_loop (methods d b) ?s0) = Inr True
         then methods_tried es \<noteq> []
            \<and> methods_failed es = butlast (methods_tried es)
            \<and> methods_clicked es = [last (methods_tried es)]
            \<and> clicks_performed es = 1
         else fst (click_loop (methods d b) ?s0) = Inr False
            \<and> methods_tried es = method_names
            \<and> methods_failed es = method_names
            \<and> methods_clicked es = []
            \<and> clicks_performed es = 0"
    unfolding methods_names by blast
  from click_loop_order [OF methods_techniques, of d b ?s0]
  obtain es' ok segs where order: "trace (snd (click_loop (methods d b) ?s0)) = trace ?s0 @ es'"
      "fst (click_loop (methods d b) ?s0) = Inr ok"
      "sections es' = ([], segs)" "tried_in_order ok (techniques b) segs"
    by blast
  from es(1) order(1) have same: "es' = es" by simp
  obtain s1 where l: "click_loop (methods d b) ?s0 = (Inr ok, s1)"
    using order(2) by (cases "click_loop (methods d b) ?s0") simp
  have tr: "trace s1 = trace s @ ?start # es"
    using es(1) l by simp
  have sec: "sections (?start # es) = ([], segs)"
    using order(3) same by simp
  show ?thesis
  proof (cases ok)
    case True
    then have run: "click_message_button d (Some b) s = (Inr True, s1)"
      using l by (simp add: click_message_button_def bind_def logger_def emit_def ret_def)
    have obs: "methods_tried (?start # es) = methods_tried es"
      "methods_failed (?start # es) = methods_failed es"
      "methods_clicked (?start # es) = methods_clicked es"
      "clicks_performed (?start # es) = clicks_performed es"
      by simp_all
    show ?thesis
      unfolding run prod.case
      apply (rule exI [of _ "?start # es"], rule exI [of _ True])
      unfolding obs leading_calls_def method_calls_def sec
      using es(2,3) l True tr order(4) by simp
  next
    case False
    let ?end = "Logger ERROR [S '' All click methods failed'']"
    from False have run: "click_message_button d (Some b) s
        = (Inr False, s1\<lparr>trace := trace s1 @ [?end]\<rparr>)"
      using l by (simp add: click_message_button_def bind_def logger_def emit_def ret_def)
    have all: "methods_tried es = method_names" "methods_failed es = method_names"
      "methods_clicked es = []" "clicks_performed es = 0"
      using es(3) l False by simp_all
    have obs: "methods_tried (?start # es @ [?end]) = methods_tried es"
      "methods_failed (?start # es @ [?end]) = methods_failed es"
      "methods_clicked (?start # es @ [?end]) = methods_clicked es"
      "clicks_performed (?start # es @ [?end]) = clicks_performed es"
      by simp_all
    have "sections ((?start # es) @ [?end]) = sections (?start # es)"
      by (rule sections_plain_snoc) simp_all
    then have sec': "sections (?start # es @ [?end]) = ([], segs)"
      using sec by simp
    show ?thesis
      unfolding run prod.case
      apply (rule exI [of _ "?start # es @ [?end]"], rule exI [of _ False])
      unfolding obs leading_calls_def method_calls_def sec'
      using all tr order(4) False by (simp add: method_names_def)
  qed
qed

lemma sticky_run: "click_message_button sticky (Some 2) start =
  (Inr True, \<lparr>world = 0, trace = [
     Logger INFO [S ''Clicking Message button...''],
     Logger DEBUG [S ''  Trying: '', S ''Normal click''],
     Call (Click 2) False,
     Logger DEBUG [S ''  '', S ''Normal click'', S '' failed: '', Exn ElementClickInterceptedException],
     Logger DEBUG [S ''  Trying: '', S ''Scroll + click''],
     Call (Execute_script ''arguments[0].scrollIntoView({block: 'center'});'' 2) True,
     Sleep 500,
     Call (Click 2) False,
     Logger DEBUG [S ''  '', S ''Scroll + click'', S '' failed: '', Exn ElementClickInterceptedException],
     Logger DEBUG [S ''  Trying: '', S ''JavaScript click''],
     Call (Execute_script ''arguments[0].click();'' 2) True,
     Logger INFO [S '' Clicked via '', S ''JavaScript click''],
     Sleep 2000]\<rparr>)"
  by (simp add: click_message_button_def methods_def click_loop.simps bind_def try_except_def
      logger_def emit_def sleep_def ret_def click_def execute_script_def actions_click_def
      env_call_def sticky_def calm_def start_def)

theorem click_message_button_first_success_witness:
  "fst (click_message_button sticky (Some 2) start) = Inr True
   \<and> (\<exists>es. trace (snd (click_message_button sticky (Some 2) start)) = trace start @ es
        \<and> tried_in_order True (techniques 2) (method_calls es)
        \<and> method_calls es = [
             (''Normal click'', [(Click 2, False)]),
             (''Scroll + click'',
                [(Execute_script ''arguments[0].scrollIntoView({block: 'center'});'' 2, True),
                 (Click 2, False)]),
             (''JavaScript click'', [(Execute_script ''arguments[0].click();'' 2, True)])]
        \<and> methods_tried es = [''Normal click'', ''Scroll + click'', ''JavaScript click'']
        \<and> methods_failed es = [''Normal click'', ''Scroll + click'']
        \<and> methods_clicked es = [''JavaScript click'']
        \<and> clicks_performed es = 1)"
proof -
  from click_message_button_first_success [where d = sticky and b = 2 and s = start]
  obtain es where es: "trace (snd (click_message_button sticky (Some 2) start)) = trace start @ es"
    "tried_in_order True (techniques 2) (method_calls es)"
    "methods_failed es = butlast (methods_tried es)"
    "methods_clicked es = [last (methods_tried es)]"
    "clicks_performed es = 1"
    by (auto simp: sticky_run)
  from es(1) [unfolded sticky_run]
  have shown: "methods_tried es = [''Normal click'', ''Scroll + click'', ''JavaScript click'']"
    "method_calls es = [
             (''Normal click'', [(Click 2, False)]),
             (''Scroll + click'',
                [(Execute_script ''arguments[0].scrollIntoView({block: 'center'});'' 2, True),
                 (Click 2, False)]),
             (''JavaScript click'', [(Execute_script ''arguments[0].click();'' 2, True)])]"
    by (auto simp: start_def method_calls_def)
  with es show ?thesis by (auto simp: sticky_run)
qed

subsection \<open>Finding the message button\<close>

lemma waits_simps [simp]:
  "waits [] = []"
  "waits (es @ es') = waits es @ waits es'"
  "waits (ev # es) = (case wait_of ev of None \<Rightarrow> waits es | Some l \<Rightarrow> l # waits es)"
  by (simp_all add: waits_def List.map_filter_def split: option.splits)

lemma xpath_step:
  "\<exists>r s'. loop_step d wait By_XPATH sel s r s'
     \<and> xpath_loop d wait i (sel # rest) s =
        (case r of Some button \<Rightarrow> (Inr (Some button), s') | None \<Rightarrow> xpath_loop d wait (Suc i) rest s')"
proof -
  let ?s0 = "s\<lparr>trace := trace s @ [Logger DEBUG [S ''  Trying selector #'', N i, S ''...'']]\<rparr>"
  obtain r1 w1 where u: "env_until_presence d wait By_XPATH sel (world s) = (r1, w1)"
    by (cases "env_until_presence d wait By_XPATH sel (world s)")
  have st1: "w1 = world s" if "static_page d wait"
    using that u unfolding static_page_def by (metis snd_conv)
  show ?thesis
  proof (cases r1)
    case (Inl e)
    let ?s' = "\<lparr>world = w1, trace = trace ?s0 @ [Call (Until_presence wait By_XPATH sel) False]\<rparr>"
    have "xpath_loop d wait i (sel # rest) s = xpath_loop d wait (Suc i) rest ?s'"
      using u Inl
      by (simp add: bind_def try_except_def logger_def emit_def ret_def until_presence_def env_call_def)
    moreover have "loop_step d wait By_XPATH sel s None ?s'"
      using u Inl st1 unfolding loop_step_def visible_match_def
      by (intro exI [of _ "[Logger DEBUG [S ''  Trying selector #'', N i, S ''...''],
            Call (Until_presence wait By_XPATH sel) False]"]) auto
    ultimately show ?thesis by (intro exI [of _ None] exI [of _ ?s']) simp
  next
    case (Inr button)
    obtain r2 w2 where v: "env_is_displayed d button w1 = (r2, w2)"
      by (cases "env_is_displayed d button w1")
    have st2: "w2 = w1" if "static_page d wait"
      using that v unfolding static_page_def by (metis snd_conv)
    let ?pre = "[Logger DEBUG [S ''  Trying selector #'', N i, S ''...''],
            Call (Until_presence wait By_XPATH sel) True, Call (Is_displayed button) (\<not> isl r2)]"
    show ?thesis
    proof (cases "r2 = Inr True")
      case True
      let ?s' = "\<lparr>world = w2, trace = trace s @ ?pre
          @ [Logger INFO [S '' Found Message button (selector #'', N i, S '')'']]\<rparr>"
      have "xpath_loop d wait i (sel # rest) s = (Inr (Some button), ?s')"
        using u v Inr True
        by (simp add: bind_def try_except_def logger_def emit_def ret_def until_presence_def
            is_displayed_def env_call_def)
      moreover have "loop_step d wait By_XPATH sel s (Some button) ?s'"
        using u v Inr True st1 st2 unfolding loop_step_def visible_match_def
        by (intro exI [of _ "?pre @ [Logger INFO [S '' Found Message button (selector #'', N i, S '')'']]"])
           auto
      ultimately show ?thesis by (intro exI [of _ "Some button"] exI [of _ ?s']) simp
    next
      case False
      let ?s' = "\<lparr>world = w2, trace = trace s @ ?pre\<rparr>"
      have "xpath_loop d wait i (sel # rest) s = xpath_loop d wait (Suc i) rest ?s'"
        using u v Inr False
        by (cases r2)
           (simp_all add: bind_def try_except_def logger_def emit_def ret_def until_presence_def
            is_displayed_def env_call_def)
      moreover have "loop_step d wait By_XPATH sel s None ?s'"
        using u v Inr False st1 st2 unfolding loop_step_def visible_match_def
        by (intro exI [of _ ?pre]) (auto split: sum.splits bool.splits)
      ultimately show ?thesis by (intro exI [of _ None] exI [of _ ?s']) simp
    qed
  qed
qed

lemma css_step:
  "\<exists>r s'. loop_step d wait By_CSS_SELECTOR sel s r s'
     \<and> css_loop d wait (sel # rest) s =
        (case r of Some button \<Rightarrow> (Inr (Some button), s') | None \<Rightarrow> css_loop d wait rest s')"
proof -
  obtain r1 w1 where u: "env_until_presence d wait By_CSS_SELECTOR sel (world s) = (r1, w1)"
    by (cases "env_until_presence d wait By_CSS_SELECTOR sel (world s)")
  have st1: "w1 = world s" if "static_page d wait"
    using that u unfolding static_page_def by (metis snd_conv)
  show ?thesis
  proof (cases r1)
    case (Inl e)
    let ?s' = "\<lparr>world = w1, trace = trace s @ [Call (Until_presence wait By_CSS_SELECTOR sel) False]\<rparr>"
    have "css_loop d wait (sel # rest) s = css_loop d wait rest ?s'"
      using u Inl
      by (simp add: bind_def try_except_def logger_def emit_def ret_def until_presence_def env_call_def)
    moreover have "loop_step d wait By_CSS_SELECTOR sel s None ?s'"
      using u Inl st1 unfolding loop_step_def visible_match_def
      by (intro exI [of _ "[Call (Until_presence wait By_CSS_SELECTOR sel) False]"]) auto
    ultimately show ?thesis by (intro exI [of _ None] exI [of _ ?s']) simp
  next
    case (Inr button)
    obtain r2 w2 where v: "env_is_displayed d button w1 = (r2, w2)"
      by (cases "env_is_displayed d button w1")
    have st2: "w2 = w1" if "static_page d wait"
      using that v unfolding static_page_def by (metis snd_conv)
    let ?pre = "[Call (Until_presence wait By_CSS_SELECTOR sel) True, Call (Is_displayed button) (\<not> isl r2)]"
    show ?thesis
    proof (cases "r2 = Inr True")
      case True
      let ?s' = "\<lparr>world = w2, trace = trace s @ ?pre
          @ [Logger INFO [S '' Found Message button (CSS)'']]\<rparr>"
      have "css_loop d wait (sel # rest) s = (Inr (Some button), ?s')"
        using u v Inr True
        by (simp add: bind_def try_except_def logger_def emit_def ret_def until_presence_def
            is_displayed_def env_call_def)
      moreover have "loop_step d wait By_CSS_SELECTOR sel s (Some button) ?s'"
        using u v Inr True st1 st2 unfolding loop_step_def visible_match_def
        by (intro exI [of _ "?pre @ [Logger INFO [S '' Found Message button (CSS)'']]"])
           auto
      ultimately show ?thesis by (intro exI [of _ "Some button"] exI [of _ ?s']) simp
    next
      case False
      let ?s' = "\<lparr>world = w2, trace = trace s @ ?pre\<rparr>"
      have "css_loop d wait (sel # rest) s = css_loop d wait rest ?s'"
        using u v Inr False
        by (cases r2)
           (simp_all add: bind_def try_except_def logger_def emit_def ret_def until_presence_def
            is_displayed_def env_call_def)
      moreover have "loop_step d wait By_CSS_SELECTOR sel s None ?s'"
        using u v Inr False st1 st2 unfolding loop_step_def visible_match_def
        by (intro exI [of _ ?pre]) (auto split: sum.splits bool.splits)
      ultimately show ?thesis by (intro exI [of _ None] exI [of _ ?s']) simp
    qed
  qed
qed

lemma first_match_loop:
  fixes L :: "nat \<Rightarrow> string list \<Rightarrow> (elem option, 'w) prog"
  assumes nil: "\<And>i s. L i [] s = (Inr None, s)"
    and step: "\<And>i sel rest s. \<exists>r s'. loop_step d wait b sel s r s'
       \<and> L i (sel # rest) s = (case r of Some button \<Rightarrow> (Inr (Some button), s') | None \<Rightarrow> L (Suc i) rest s')"
  shows "first_match d wait (map (Pair b) sels) s (L i sels s)"
proof (induction sels arbitrary: i s)
  case Nil
  show ?case by (simp add: nil first_match_def)
next
  case (Cons sel rest)
  from step [where sel = sel and s = s and i = i and rest = rest] obtain r s1 where
    ls: "loop_step d wait b sel s r s1"
    and run: "L i (sel # rest) s = (case r of Some button \<Rightarrow> (Inr (Some button), s1) | None \<Rightarrow> L (Suc i) rest s1)"
    by blast
  from ls obtain es where es: "trace s1 = trace s @ es" "waits es = [(b, sel)]"
    "static_page d wait \<longrightarrow> world s1 = world s \<and> visible_match d wait (world s) (b, sel) = r"
    unfolding loop_step_def by blast
  show ?case
  proof (cases r)
    case (Some button)
    then show ?thesis
      using es run unfolding first_match_def
      by (auto intro!: exI [of _ es] exI [of _ 0])
  next
    case None
    obtain r' s' where out: "L (Suc i) rest s1 = (r', s')" by (cases "L (Suc i) rest s1")
    from Cons.IH [where i = "Suc i" and s = s1] out
    obtain es' where es': "trace s' = trace s1 @ es'"
      "static_page d wait \<longrightarrow> world s' = world s1"
      "case r' of
          Inl e \<Rightarrow> False
        | Inr None \<Rightarrow> waits es' = map (Pair b) rest
            \<and> (static_page d wait \<longrightarrow> (\<forall>l \<in> set (map (Pair b) rest). visible_match d wait (world s1) l = None))
        | Inr (Some button) \<Rightarrow> (\<exists>n < length (map (Pair b) rest). waits es' = take (Suc n) (map (Pair b) rest)
            \<and> (static_page d wait \<longrightarrow> visible_match d wait (world s1) (map (Pair b) rest ! n) = Some button
                 \<and> (\<forall>j < n. visible_match d wait (world s1) (map (Pair b) rest ! j) = None)))"
      unfolding first_match_def by auto
    have run': "L i (sel # rest) s = (r', s')" using run None out by simp
    show ?thesis
    proof (cases r')
      case (Inl e)
      then show ?thesis using es'(3) by simp
    next
      case (Inr found)
      show ?thesis
      proof (cases found)
        case None
        then show ?thesis
          using es es' Inr \<open>r = None\<close> unfolding first_match_def run'
          by (auto intro!: exI [of _ "es @ es'"])
      next
        case (Some button)
        with es'(3) Inr obtain n where n: "n < length rest"
          "waits es' = take (Suc n) (map (Pair b) rest)"
          "static_page d wait \<longrightarrow> visible_match d wait (world s1) (map (Pair b) rest ! n) = Some button
                 \<and> (\<forall>j < n. visible_match d wait (world s1) (map (Pair b) rest ! j) = None)"
          by auto
        have "\<forall>j < Suc n. visible_match d wait (world s) (map (Pair b) (sel # rest) ! j) = None"
          if st: "static_page d wait"
        proof (intro allI impI)
          fix j assume "j < Suc n"
          then show "visible_match d wait (world s) (map (Pair b) (sel # rest) ! j) = None"
            using st es(3) n(3) \<open>r = None\<close> by (cases j) auto
        qed
        moreover have "visible_match d wait (world s) (map (Pair b) (sel # rest) ! Suc n) = Some button"
          if st: "static_page d wait"
          using st es(3) n(3) by simp
        ultimately show ?thesis
          using es es' n Inr Some unfolding first_match_def run'
          by (intro case_prodI exI [of _ "es @ es'"] conjI) (auto intro!: exI [of _ "Suc n"])
      qed
    qed
  qed
qed

lemma first_match_xpath:
  "first_match d wait (map (Pair By_XPATH) sels) s (xpath_loop d wait i sels s)"
proof (rule first_match_loop [where L = "xpath_loop d wait"])
  show "xpath_loop d wait i [] s = (Inr None, s)" for i s by (simp add: ret_def)
  show "\<exists>r s'. loop_step d wait By_XPATH sel s r s'
       \<and> xpath_loop d wait i (sel # rest) s
         = (case r of Some button \<Rightarrow> (Inr (Some button), s') | None \<Rightarrow> xpath_loop d wait (Suc i) rest s')"
    for i sel rest s
    by (rule xpath_step)
qed

lemma first_match_css:
  "first_match d wait (map (Pair By_CSS_SELECTOR) sels) s (css_loop d wait sels s)"
proof (rule first_match_loop [where L = "\<lambda>i. css_loop d wait" and i = 0])
  show "css_loop d wait [] s = (Inr None, s)" for s by (simp add: ret_def)
  show "\<exists>r s'. loop_step d wait By_CSS_SELECTOR sel s r s'
       \<and> css_loop d wait (sel # rest) s
         = (case r of Some button \<Rightarrow> (Inr (Some button), s') | None \<Rightarrow> css_loop d wait rest s')"
    for sel rest s
    by (rule css_step)
qed

lemma first_match_prefix:
  assumes "first_match d wait xs s (Inr (Some button), s1)"
  shows "first_match d wait (xs @ ys) s (Inr (Some button), s1)"
proof -
  from assms obtain es n where es: "trace s1 = trace s @ es"
    "static_page d wait \<longrightarrow> world s1 = world s"
    "n < length xs" "waits es = take (Suc n) xs"
    "static_page d wait \<longrightarrow> visible_match d wait (world s) (xs ! n) = Some button
       \<and> (\<forall>j < n. visible_match d wait (world s) (xs ! j) = None)"
    unfolding first_match_def by auto
  have "\<forall>j \<le> n. (xs @ ys) ! j = xs ! j" using es(3) by (simp add: nth_append)
  then show ?thesis
    using es unfolding first_match_def
    by (intro case_prodI exI [of _ es] conjI) (auto intro!: exI [of _ n])
qed

lemma first_match_append:
  assumes x: "first_match d wait xs s (Inr None, s1)"
    and y: "first_match d wait ys s1 out"
  shows "first_match d wait (xs @ ys) s out"
proof -
  obtain r s2 where out: "out = (r, s2)" by (cases out)
  from x obtain es where es: "trace s1 = trace s @ es"
    "static_page d wait \<longrightarrow> world s1 = world s" "waits es = xs"
    "static_page d wait \<longrightarrow> (\<forall>l \<in> set xs. visible_match d wait (world s) l = None)"
    unfolding first_match_def by auto
  from y out obtain es' where es': "trace s2 = trace s1 @ es'"
    "static_page d wait \<longrightarrow> world s2 = world s1"
    "case r of
       Inl e \<Rightarrow> False
     | Inr None \<Rightarrow> waits es' = ys
         \<and> (static_page d wait \<longrightarrow> (\<forall>l \<in> set ys. visible_match d wait (world s1) l = None))
     | Inr (Some button) \<Rightarrow> (\<exists>n < length ys. waits es' = take (Suc n) ys
         \<and> (static_page d wait \<longrightarrow> visible_match d wait (world s1) (ys ! n) = Some button
              \<and> (\<forall>j < n. visible_match d wait (world s1) (ys ! j) = None)))"
    unfolding first_match_def by auto
  show ?thesis
  proof (cases r)
    case (Inl e)
    then show ?thesis using es'(3) by simp
  next
    case (Inr found)
    show ?thesis
    proof (cases found)
      case None
      then show ?thesis
        using es es' Inr unfolding first_match_def out
        by (intro case_prodI exI [of _ "es @ es'"] conjI) auto
    next
      case (Some button)
      with es'(3) Inr obtain n where n: "n < length ys" "waits es' = take (Suc n) ys"
        "static_page d wait \<longrightarrow> visible_match d wait (world s1) (ys ! n) = Some button
              \<and> (\<forall>j < n. visible_match d wait (world s1) (ys ! j) = None)"
        by auto
      have none: "visible_match d wait (world s) ((xs @ ys) ! j) = None"
        if "static_page d wait" "j < length xs + n" for j
      proof (cases "j < length xs")
        case True
        then show ?thesis using that es(4) by (simp add: nth_append)
      next
        case False
        then show ?thesis using that n(3) es(2) by (simp add: nth_append)
      qed
      have some: "visible_match d wait (world s) ((xs @ ys) ! (length xs + n)) = Some button"
        if "static_page d wait"
        using that n(3) es(2) by (simp add: nth_append)
      show ?thesis
        using es es' n Inr Some none some unfolding first_match_def out
        by (intro case_prodI exI [of _ "es @ es'"] conjI) (auto intro!: exI [of _ "length xs + n"])
    qed
  qed
qed

lemma first_match_frame:
  assumes "first_match d wait ls s0 (r, s1)"
    and "trace s0 = trace s @ pre" "waits pre = []" "world s0 = world s"
    and "trace s2 = trace s1 @ post" "waits post = []" "world s2 = world s1"
  shows "first_match d wait ls s (r, s2)"
proof -
  from assms(1) obtain es where es: "trace s1 = trace s0 @ es"
    "static_page d wait \<longrightarrow> world s1 = world s0"
    "case r of
       Inl e \<Rightarrow> False
     | Inr None \<Rightarrow> waits es = ls
         \<and> (static_page d wait \<longrightarrow> (\<forall>l \<in> set ls. visible_match d wait (world s0) l = None))
     | Inr (Some button) \<Rightarrow> (\<exists>n < length ls. waits es = take (Suc n) ls
         \<and> (static_page d wait \<longrightarrow> visible_match d wait (world s0) (ls ! n) = Some button
              \<and> (\<forall>j < n. visible_match d wait (world s0) (ls ! j) = None)))"
    unfolding first_match_def by auto
  show ?thesis
    using es assms(2-) unfolding first_match_def
    by (intro case_prodI exI [of _ "pre @ es @ post"] conjI)
       (auto split: sum.splits option.splits)
qed

lemma find_message_button_first_match:
  "first_match d wait locators s (find_message_button d wait s)"
proof -
  let ?start = "Logger INFO [S '' Searching for Message button...'']"
  let ?s0 = "s\<lparr>trace := trace s @ [?start]\<rparr>"
  obtain r1 s1 where x: "xpath_loop d wait 1 xpath_selectors ?s0 = (r1, s1)"
    by (cases "xpath_loop d wait 1 xpath_selectors ?s0")
  have fx: "first_match d wait (map (Pair By_XPATH) xpath_selectors) ?s0 (r1, s1)"
    using first_match_xpath [of d wait xpath_selectors ?s0 1] x by simp
  obtain r2 s2 where c: "css_loop d wait css_selectors s1 = (r2, s2)"
    by (cases "css_loop d wait css_selectors s1")
  have fc: "first_match d wait (map (Pair By_CSS_SELECTOR) css_selectors) s1 (r2, s2)"
    using first_match_css [of d wait css_selectors s1] c by simp
  have unfold: "find_message_button d wait s =
     (case r1 of
        Inl e \<Rightarrow> (Inl e, s1)
      | Inr (Some button) \<Rightarrow> (Inr (Some button), s1)
      | Inr None \<Rightarrow>
         (case r2 of
            Inl e \<Rightarrow> (Inl e, s2)
          | Inr (Some button) \<Rightarrow> (Inr (Some button), s2)
          | Inr None \<Rightarrow> (Inr None, s2\<lparr>trace := trace s2 @ [Logger ERROR [S '' Message button not found'']]\<rparr>)))"
    using x c
    by (simp add: find_message_button_def bind_def logger_def emit_def ret_def
        split: sum.splits option.splits)
  have r1: "\<not> isl r1" using fx by (cases r1) (auto simp: first_match_def)
  have r2: "\<not> isl r2" using fc by (cases r2) (auto simp: first_match_def)
  show ?thesis
  proof (cases r1)
    case (Inl e)
    then show ?thesis using r1 by simp
  next
    case (Inr found)
    show ?thesis
    proof (cases found)
      case (Some button)
      have "first_match d wait locators ?s0 (Inr (Some button), s1)"
        unfolding locators_def using fx Inr Some by (intro first_match_prefix) simp
      then have "first_match d wait locators s (Inr (Some button), s1)"
        by (rule first_match_frame [where pre = "[?start]" and post = "[]"]) simp_all
      then show ?thesis using Inr Some unfold by simp
    next
      case None
      have both: "first_match d wait locators ?s0 (r2, s2)"
        unfolding locators_def using fx fc Inr None by (intro first_match_append) simp_all
      show ?thesis
      proof (cases r2)
        case (Inl e)
        then show ?thesis using r2 by simp
      next
        case found2: (Inr found2)
        show ?thesis
        proof (cases found2)
          case (Some button)
          have "first_match d wait locators s (r2, s2)"
            using both by (rule first_match_frame [where pre = "[?start]" and post = "[]"]) simp_all
          then show ?thesis using Inr None found2 Some unfold by simp
        next
          case None': None
          have "first_match d wait locators s
            (r2, s2\<lparr>trace := trace s2 @ [Logger ERROR [S '' Message button not found'']]\<rparr>)"
            using both
            by (rule first_match_frame [where pre = "[?start]"
                  and post = "[Logger ERROR [S '' Message button not found'']]"]) simp_all
          then show ?thesis using Inr None found2 None' unfold by simp
        qed
      qed
    qed
  qed
qed

text \<open>
  C7. \<open>find_message_button\<close> waits for its locator expressions in their priority order
  (the waits of the run are a prefix of the list) and never raises. It returns None only
  after all of them. On a page that looking does not change, the button it returns is the
  visible match of the first expression that has one: every expression before it has none;
  and it returns None exactly when no expression has a visible match.
\<close>

theorem find_message_button_priority:
  "case find_message_button d wait s of (r, s') \<Rightarrow> \<exists>es. trace s' = trace s @ es
     \<and> (static_page d wait \<longrightarrow> world s' = world s)
     \<and> (case r of
          Inl e \<Rightarrow> False
        | Inr None \<Rightarrow> waits es = locators
            \<and> (static_page d wait \<longrightarrow> (\<forall>l \<in> set locators. visible_match d wait (world s) l = None))
        | Inr (Some button) \<Rightarrow> (\<exists>n < length locators. waits es = take (Suc n) locators
            \<and> (static_page d wait \<longrightarrow> visible_match d wait (world s) (locators ! n) = Some button
                 \<and> (\<forall>j < n. visible_match d wait (world s) (locators ! j) = None))))"
  using find_message_button_first_match [of d wait s] unfolding first_match_def .

lemma layered_static: "static_page layered WAIT_TIMEOUT"
  by (simp add: static_page_def layered_def calm_def)

lemma layered_run: "fst (find_message_button layered WAIT_TIMEOUT start) = Inr (Some 5)"
  by (simp add: find_message_button_def xpath_selectors_def css_selectors_def locators_def
      bind_def try_except_def logger_def emit_def ret_def until_presence_def is_displayed_def
      env_call_def layered_def calm_def start_def)


theorem find_message_button_priority_witness:
  "static_page layered WAIT_TIMEOUT
   \<and> fst (find_message_button layered WAIT_TIMEOUT start) = Inr (Some 5)
   \<and> (\<exists>es. trace (snd (find_message_button layered WAIT_TIMEOUT start)) = trace start @ es
        \<and> (\<exists>n < length locators. waits es = take (Suc n) locators
             \<and> visible_match layered WAIT_TIMEOUT (world start) (locators ! n) = Some 5
             \<and> (\<forall>j < n. visible_match layered WAIT_TIMEOUT (world start) (locators ! j) = None)))"
proof -
  obtain r s' where run: "find_message_button layered WAIT_TIMEOUT start = (r, s')"
    by (cases "find_message_button layered WAIT_TIMEOUT start")
  with layered_run have r: "r = Inr (Some 5)" by simp
  from find_message_button_priority [where d = layered and wait = WAIT_TIMEOUT and s = start]
  show ?thesis
    unfolding run r using layered_static by auto
qed

subsection \<open>The captcha guard\<close>











lemma lookups_simps [simp]:
  "lookups [] = []"
  "lookups (ev # es) = (case lookup_of ev of None \<Rightarrow> lookups es | Some sel \<Rightarrow> sel # lookups es)"
  "lookups (es @ es') = lookups es @ lookups es'"
  by (simp_all add: lookups_def List.map_filter_def split: option.splits)











subsection \<open>Rules for the markers of a program\<close>

lemma yields_weaken: "yields m R \<Longrightarrow> (\<And>r ms. R r ms \<Longrightarrow> R' r ms) \<Longrightarrow> yields m R'"
  unfolding yields_def by blast

lemma yields_ret: "R (Inr a) [] \<Longrightarrow> yields (ret a) R"
  by (simp add: yields_def ret_def)

lemma yields_raise: "R (Inl e) [] \<Longrightarrow> yields (raise e) R"
  by (simp add: yields_def raise_def)

lemma yields_emit: "R (Inr ()) (filter marker [ev]) \<Longrightarrow> yields (emit ev) R"
  by (simp add: yields_def emit_def)

lemma yields_call: "(\<And>r. R r []) \<Longrightarrow> yields (env_call c op) R"
  by (auto simp: yields_def env_call_def split: prod.splits)

lemma yields_draw: "(\<And>a. R (Inr a) []) \<Longrightarrow> yields (draw op) R"
  by (auto simp: yields_def draw_def split: prod.splits)

lemma yields_bind:
  assumes m: "yields m R1"
    and f: "\<And>a ms. R1 (Inr a) ms \<Longrightarrow> yields (f a) (\<lambda>r ms'. R r (ms @ ms'))"
    and e: "\<And>e ms. R1 (Inl e) ms \<Longrightarrow> R (Inl e) ms"
  shows "yields (bind m f) R"
  unfolding yields_def
proof
  fix s
  from m obtain es where es: "trace (snd (m s)) = trace s @ es" "R1 (fst (m s)) (filter marker es)"
    unfolding yields_def by blast
  show "\<exists>es. trace (snd (bind m f s)) = trace s @ es \<and> R (fst (bind m f s)) (filter marker es)"
  proof (cases "fst (m s)")
    case (Inl x)
    then have "bind m f s = (Inl x, snd (m s))"
      by (cases "m s") (simp add: bind_def)
    then show ?thesis using es e Inl by auto
  next
    case (Inr a)
    then have b: "bind m f s = f a (snd (m s))"
      by (cases "m s") (simp add: bind_def)
    from f [of a "filter marker es"] es(2) Inr
    obtain es' where "trace (snd (f a (snd (m s)))) = trace (snd (m s)) @ es'"
      "R (fst (f a (snd (m s)))) (filter marker es @ filter marker es')"
      unfolding yields_def by auto
    then show ?thesis using es(1) b by (intro exI [of _ "es @ es'"]) simp
  qed
qed

lemma yields_try:
  assumes m: "yields m R1"
    and h: "\<And>e ms. R1 (Inl e) ms \<Longrightarrow> yields (h e) (\<lambda>r ms'. R r (ms @ ms'))"
    and a: "\<And>a ms. R1 (Inr a) ms \<Longrightarrow> R (Inr a) ms"
  shows "yields (try_except m h) R"
  unfolding yields_def
proof
  fix s
  from m obtain es where es: "trace (snd (m s)) = trace s @ es" "R1 (fst (m s)) (filter marker es)"
    unfolding yields_def by blast
  show "\<exists>es. trace (snd (try_except m h s)) = trace s @ es \<and> R (fst (try_except m h s)) (filter marker es)"
  proof (cases "fst (m s)")
    case (Inr x)
    then have "try_except m h s = (Inr x, snd (m s))"
      by (cases "m s") (simp add: try_except_def)
    then show ?thesis using es a Inr by auto
  next
    case (Inl e)
    then have b: "try_except m h s = h e (snd (m s))"
      by (cases "m s") (simp add: try_except_def)
    from h [of e "filter marker es"] es(2) Inl
    obtain es' where "trace (snd (h e (snd (m s)))) = trace (snd (m s)) @ es'"
      "R (fst (h e (snd (m s)))) (filter marker es @ filter marker es')"
      unfolding yields_def by auto
    then show ?thesis using es(1) b by (intro exI [of _ "es @ es'"]) simp
  qed
qed

named_theorems quiet_intro

lemma quiet_ret [quiet_intro]: "quiet (ret a)"
  by (simp add: quiet_def yields_ret)

lemma quiet_raise [quiet_intro]: "quiet (raise e)"
  by (simp add: quiet_def yields_raise)

lemma quiet_emit: "\<not> marker ev \<Longrightarrow> quiet (emit ev)"
  by (simp add: quiet_def yields_emit)

lemma quiet_sleep [quiet_intro]: "quiet (sleep t)"
  by (simp add: sleep_def quiet_emit)

lemma quiet_call [quiet_intro]: "quiet (env_call c op)"
  by (simp add: quiet_def yields_call)

lemma quiet_draw [quiet_intro]: "quiet (draw op)"
  by (simp add: quiet_def yields_draw)

lemma quiet_bind [quiet_intro]: "quiet m \<Longrightarrow> (\<And>a. quiet (f a)) \<Longrightarrow> quiet (bind m f)"
  unfolding quiet_def by (rule yields_bind [where ?R1.0 = "\<lambda>r ms. ms = []"]) auto

lemma quiet_try [quiet_intro]: "quiet m \<Longrightarrow> (\<And>e. quiet (h e)) \<Longrightarrow> quiet (try_except m h)"
  unfolding quiet_def by (rule yields_try [where ?R1.0 = "\<lambda>r ms. ms = []"]) auto

lemma quiet_total_quiet: "quiet_total m \<Longrightarrow> quiet m"
  unfolding quiet_def quiet_total_def by (erule yields_weaken) simp

named_theorems total_intro

lemma total_ret [total_intro]: "quiet_total (ret a)"
  by (simp add: quiet_total_def yields_ret)

lemma total_emit: "\<not> marker ev \<Longrightarrow> quiet_total (emit ev)"
  by (simp add: quiet_total_def yields_emit)

lemma total_sleep [total_intro]: "quiet_total (sleep t)"
  by (simp add: sleep_def total_emit)

lemma total_draw [total_intro]: "quiet_total (draw op)"
  by (simp add: quiet_total_def yields_draw)

lemma total_bind [total_intro]: "quiet_total m \<Longrightarrow> (\<And>a. quiet_total (f a)) \<Longrightarrow> quiet_total (bind m f)"
  unfolding quiet_total_def by (rule yields_bind [where ?R1.0 = "\<lambda>r ms. ms = [] \<and> \<not> isl r"]) auto

lemma total_try [total_intro]: "quiet m \<Longrightarrow> (\<And>e. quiet_total (h e)) \<Longrightarrow> quiet_total (try_except m h)"
  unfolding quiet_total_def quiet_def by (rule yields_try [where ?R1.0 = "\<lambda>r ms. ms = []"]) auto

lemma quiet_primitives [quiet_intro]:
  "quiet (find_element d b sel)" "quiet (until_presence d w b sel)" "quiet (text_of d e)"
  "quiet (is_displayed d e)" "quiet (click d e)" "quiet (send_keys d e k)"
  "quiet (execute_script d script e)" "quiet (actions_send_keys d k)" "quiet (actions_click d e)"
  "quiet (save_screenshot d name)" "quiet (get d url)" "quiet (quit d)" "quiet (uniform d lo hi)"
  by (simp_all add: find_element_def until_presence_def text_of_def is_displayed_def click_def
      send_keys_def execute_script_def actions_send_keys_def actions_click_def save_screenshot_def
      get_def quit_def uniform_def quiet_intro)

lemma quiet_logger_iff: "quiet (logger lv m) \<longleftrightarrow> \<not> marker (Logger lv m)"
  by (auto simp: quiet_def yields_def logger_def emit_def)

lemma total_logger_iff: "quiet_total (logger lv m) \<longleftrightarrow> \<not> marker (Logger lv m)"
  by (auto simp: quiet_total_def yields_def logger_def emit_def)

lemma yieldsD:
  "yields m R \<Longrightarrow> \<exists>es. trace (snd (m s)) = trace s @ es \<and> R (fst (m s)) (filter marker es)"
  unfolding yields_def by blast

lemma yields_bind_logger:
  "yields (f ()) (\<lambda>r ms. R r (filter marker [Logger lv m] @ ms)) \<Longrightarrow> yields (bind (logger lv m) f) R"
  unfolding logger_def
  by (rule yields_bind [where ?R1.0 = "\<lambda>r ms. r = Inr () \<and> ms = filter marker [Logger lv m]"])
     (auto intro: yields_emit)

lemma yields_bind_quiet:
  "quiet m \<Longrightarrow> (\<And>a. yields (f a) R) \<Longrightarrow> (\<And>e. R (Inl e) []) \<Longrightarrow> yields (bind m f) R"
  unfolding quiet_def
  by (rule yields_bind [where ?R1.0 = "\<lambda>r ms. ms = []"]) auto

lemma yields_bind_total:
  "quiet_total m \<Longrightarrow> (\<And>a. yields (f a) R) \<Longrightarrow> yields (bind m f) R"
  unfolding quiet_total_def
  by (rule yields_bind [where ?R1.0 = "\<lambda>r ms. ms = [] \<and> \<not> isl r"]) auto

lemma yields_bind_logger_quiet:
  "\<not> marker (Logger lv m) \<Longrightarrow> yields (f ()) R \<Longrightarrow> yields (bind (logger lv m) f) R"
  by (rule yields_bind_logger) simp

lemma yields_bind_logger_marker:
  "marker (Logger lv m) \<Longrightarrow> yields (f ()) (\<lambda>r ms. R r (Logger lv m # ms))
    \<Longrightarrow> yields (bind (logger lv m) f) R"
  by (rule yields_bind_logger) simp

lemma log_activity_writable:
  assumes "writable d"
  shows "log_activity d m lv s = (Inr (), \<lparr>world = snd (env_append d LOG_FILE (world s)),
     trace = trace s @ log_entry lv m\<rparr>)"
proof -
  obtain r w where a: "env_append d LOG_FILE (world s) = (r, w)"
    by (cases "env_append d LOG_FILE (world s)")
  with assms have "\<not> isl r" unfolding writable_def by (metis fst_conv)
  then show ?thesis
    using a
    by (cases r)
       (simp_all add: log_activity_def log_entry_def bind_def env_call_def emit_def logger_def)
qed

lemma bind_log_activity:
  "writable d \<Longrightarrow> bind (log_activity d m lv) f s
     = f () \<lparr>world = snd (env_append d LOG_FILE (world s)), trace = trace s @ log_entry lv m\<rparr>"
  by (simp add: bind_def log_activity_writable)

lemma yields_bind_log_activity:
  assumes "writable d"
    and "\<And>lv'. \<not> marker (Logger lv' m)"
    and "yields (f ()) (\<lambda>r ms. R r (Append LOG_FILE lv m # ms))"
  shows "yields (bind (log_activity d m lv) f) R"
proof (rule yields_bind [where ?R1.0 = "\<lambda>r ms. r = Inr () \<and> ms = [Append LOG_FILE lv m]"])
  show "yields (log_activity d m lv) (\<lambda>r ms. r = Inr () \<and> ms = [Append LOG_FILE lv m])"
    unfolding yields_def
    by (simp add: log_activity_writable [OF assms(1)] log_entry_def assms(2))
  show "yields (f a) (\<lambda>r ms'. R r (ms @ ms'))" if "Inr a = Inr () \<and> ms = [Append LOG_FILE lv m]"
    for a ms
    using that assms(3) by simp
  show "R (Inl e) ms" if "Inl e = Inr () \<and> ms = [Append LOG_FILE lv m]" for e ms
    using that by simp
qed

lemma writable_examples [simp]: "writable calm" "writable offline" "writable flaky" "writable vacant"
  by (simp_all add: writable_def calm_def offline_def flaky_def vacant_def)

lemma bind_ret: "bind (ret a) f = f a"
  by (rule ext) (simp add: bind_def ret_def)

lemma yields_sleep: "R (Inr ()) [] \<Longrightarrow> yields (sleep t) R"
  unfolding sleep_def by (rule yields_emit) simp

subsection \<open>The helpers of the send workflow add no marker\<close>

lemma quiet_total_close_loop: "quiet_total (close_loop d sels)"
  by (induction sels)
     (auto intro!: total_intro quiet_intro simp: quiet_logger_iff total_logger_iff)

lemma quiet_total_press_escape: "quiet_total (press_escape d)"
  unfolding press_escape_def
  by (auto intro!: total_intro quiet_intro simp: quiet_logger_iff total_logger_iff)

lemmas quiet_captcha_parts [quiet_intro] =
  quiet_total_close_loop [THEN quiet_total_quiet] quiet_total_press_escape [THEN quiet_total_quiet]

lemma quiet_total_captcha [total_intro]: "quiet_total (check_and_close_captcha d)"
  unfolding check_and_close_captcha_def
  by (auto intro!: total_intro quiet_intro simp: quiet_logger_iff total_logger_iff)

lemma quiet_total_xpath_loop: "quiet_total (xpath_loop d wait i sels)"
  by (induction sels arbitrary: i)
     (auto intro!: total_intro quiet_intro simp: quiet_logger_iff total_logger_iff split: option.splits)

lemma quiet_total_css_loop: "quiet_total (css_loop d wait sels)"
  by (induction sels)
     (auto intro!: total_intro quiet_intro simp: quiet_logger_iff total_logger_iff split: option.splits)

lemma quiet_total_find_message_button [total_intro]: "quiet_total (find_message_button d wait)"
  unfolding find_message_button_def
  by (auto intro!: total_intro quiet_intro quiet_total_xpath_loop quiet_total_css_loop
      simp: quiet_logger_iff total_logger_iff split: option.splits)

lemma quiet_total_click_loop:
  "\<forall>(name, f) \<in> set ms. quiet f \<Longrightarrow> quiet_total (click_loop ms)"
  by (induction ms)
     (auto intro!: total_intro quiet_intro simp: quiet_logger_iff total_logger_iff click_loop.simps)

lemma quiet_total_click_message_button [total_intro]: "quiet_total (click_message_button d button)"
  unfolding click_message_button_def
  by (auto intro!: total_intro quiet_intro quiet_total_click_loop
      simp: quiet_logger_iff total_logger_iff methods_def split: option.splits)

lemma quiet_total_captcha_loop [total_intro]: "quiet_total (captcha_loop d n)"
  by (induction n) (auto intro!: total_intro)

lemma quiet_total_input_loop [total_intro]: "quiet_total (input_loop d wait message_input sels)"
  by (induction sels arbitrary: message_input)
     (auto intro!: total_intro quiet_intro simp: quiet_logger_iff total_logger_iff split: prod.splits)

lemma quiet_human_type [quiet_intro]: "quiet (human_type d element chars)"
  by (induction chars) (auto intro!: quiet_intro)

lemma quiet_choice [quiet_intro]: "quiet (choice d xs)"
  unfolding choice_def by (auto intro!: quiet_intro)

subsection \<open>The markers of one send\<close>

lemma yields_screenshot_False:
  "R (Inr False) [] \<Longrightarrow> (\<And>e. R (Inl e) []) \<Longrightarrow> yields (bind (save_screenshot d name) (\<lambda>_. ret False)) R"
  by (rule yields_bind_quiet) (simp_all add: quiet_intro yields_ret)

lemma type_and_send_markers:
  "yields (type_and_send d username message_input)
     (\<lambda>r ms. ms = (if r = Inr True then [succeeded username] else []))"
  unfolding type_and_send_def
  apply (rule yields_bind_quiet, (simp add: quiet_intro; fail))
   apply (rule yields_bind_quiet, (simp add: quiet_intro; fail))
    apply (rule yields_bind_quiet, (simp add: quiet_intro; fail))
     apply (rule yields_bind_logger_quiet, (simp; fail))
     apply (rule yields_bind_quiet, (simp add: quiet_intro; fail))
      apply (rule yields_bind_quiet, (simp add: quiet_intro; fail))
       apply (rule yields_bind_quiet, (simp add: quiet_intro; fail))
        apply (rule yields_bind_logger_quiet, (simp; fail))
        apply (rule yields_bind_quiet, (simp add: quiet_intro; fail))
         apply (rule yields_bind_logger_marker, (simp; fail))
         apply (rule yields_ret)
         apply (simp_all add: succeeded_def)
  done

lemma find_input_and_send_markers:
  "yields (find_input_and_send d username wait)
     (\<lambda>r ms. ms = (if r = Inr True then [succeeded username] else []))"
  unfolding find_input_and_send_def
proof (rule yields_bind_total [OF quiet_total_captcha], rule yields_bind_logger_quiet, simp,
    rule yields_bind_total [OF quiet_total_input_loop])
  fix message_input :: "elem option"
  let ?R = "\<lambda>r ms. ms = (if r = Inr True then [succeeded username] else [])"
  show "yields (case message_input of
          None \<Rightarrow> bind (logger ERROR [S '' Message input not found''])
                   (\<lambda>_. bind (save_screenshot d (''debug_no_input_'' @ username @ ''.png''))
                     (\<lambda>_. ret False))
        | Some input \<Rightarrow> type_and_send d username input) ?R"
  proof (cases message_input)
    case None
    have "yields (bind (logger ERROR [S '' Message input not found''])
                   (\<lambda>_. bind (save_screenshot d (''debug_no_input_'' @ username @ ''.png''))
                     (\<lambda>_. ret False))) ?R"
      by (rule yields_bind_logger_quiet, simp, rule yields_screenshot_False) simp_all
    then show ?thesis using None by simp
  next
    case (Some input)
    then show ?thesis by (simp add: type_and_send_markers)
  qed
qed

lemma after_button_markers:
  "yields (bind (click_message_button d message_button) (\<lambda>clicked.
       if \<not> clicked then bind (save_screenshot d name) (\<lambda>_. ret False)
       else find_input_and_send d username wait))
     (\<lambda>r ms. ms = (if r = Inr True then [succeeded username] else []))"
proof (rule yields_bind_total [OF quiet_total_click_message_button])
  fix clicked
  let ?R = "\<lambda>r ms. ms = (if r = Inr True then [succeeded username] else [])"
  show "yields (if \<not> clicked then bind (save_screenshot d name) (\<lambda>_. ret False)
       else find_input_and_send d username wait) ?R"
  proof (cases clicked)
    case True
    then show ?thesis by (simp add: find_input_and_send_markers)
  next
    case False
    have "yields (bind (save_screenshot d name) (\<lambda>_. ret False)) ?R"
      by (rule yields_screenshot_False) simp_all
    then show ?thesis using False by simp
  qed
qed

lemma from_button_markers:
  "yields (bind (find_message_button d wait) (\<lambda>message_button.
       if message_button = None then bind (save_screenshot d name) (\<lambda>_. ret False)
       else bind (click_message_button d message_button) (\<lambda>clicked.
         if \<not> clicked then bind (save_screenshot d name') (\<lambda>_. ret False)
         else find_input_and_send d username wait)))
     (\<lambda>r ms. ms = (if r = Inr True then [succeeded username] else []))"
proof (rule yields_bind_total [OF quiet_total_find_message_button])
  fix message_button :: "elem option"
  let ?R = "\<lambda>r ms. ms = (if r = Inr True then [succeeded username] else [])"
  have "yields (bind (save_screenshot d name) (\<lambda>_. ret False)) ?R"
    by (rule yields_screenshot_False) simp_all
  then show "yields (if message_button = None then bind (save_screenshot d name) (\<lambda>_. ret False)
       else bind (click_message_button d message_button) (\<lambda>clicked.
         if \<not> clicked then bind (save_screenshot d name') (\<lambda>_. ret False)
         else find_input_and_send d username wait)) ?R"
    by (simp add: after_button_markers)
qed

lemma send_streak_body_markers:
  "yields (send_streak_body d username)
     (\<lambda>r ms. ms = processing username # (if r = Inr True then [succeeded username] else []))"
  unfolding send_streak_body_def Let_def
  apply (rule yields_bind_logger_quiet, (simp; fail))
  apply (rule yields_bind_logger_marker, (simp; fail))
  apply (rule yields_bind_logger_quiet, (simp; fail))
  apply (rule yields_bind_logger_quiet, (simp; fail))
  apply (rule yields_bind_quiet, (simp add: quiet_intro; fail))
   apply (rule yields_bind_quiet, (simp add: quiet_intro; fail))
    apply (rule yields_bind_total [OF quiet_total_captcha_loop])
    apply (rule yields_weaken [OF from_button_markers])
    apply (simp_all add: processing_def)
  done

lemma send_streak_to_user_markers:
  "yields (send_streak_to_user d username)
     (\<lambda>r ms. \<not> isl r \<and> ms = processing (lstrip_chars ''@'' username)
          # (if r = Inr True then [succeeded (lstrip_chars ''@'' username)] else []))"
  unfolding send_streak_to_user_def Let_def
proof (rule yields_try [OF send_streak_body_markers])
  fix e :: exn and ms :: "event list"
  let ?u = "lstrip_chars ''@'' username"
  assume ms: "ms = processing ?u # (if Inl e = Inr True then [succeeded ?u] else [])"
  have shot: "quiet_total (try_except (save_screenshot d (''debug_error_'' @ ?u @ ''.png'')) (\<lambda>e'. ret ()))"
    by (rule total_try) (simp_all add: quiet_intro total_intro)
  show "yields (bind (logger ERROR [S '' Error @'', S ?u, S '': '', Exn e])
          (\<lambda>_. bind (try_except (save_screenshot d (''debug_error_'' @ ?u @ ''.png'')) (\<lambda>e'. ret ()))
            (\<lambda>_. ret False)))
        (\<lambda>r ms'. \<not> isl r \<and> ms @ ms' = processing ?u # (if r = Inr True then [succeeded ?u] else []))"
    by (rule yields_bind_logger_quiet, simp, rule yields_bind_total [OF shot], rule yields_ret)
       (simp add: ms)
next
  fix a :: bool and ms :: "event list"
  let ?u = "lstrip_chars ''@'' username"
  assume "ms = processing ?u # (if Inr a = Inr True then [succeeded ?u] else [])"
  then show "\<not> isl (Inr a :: exn + bool) \<and> ms = processing ?u # (if Inr a = Inr True then [succeeded ?u] else [])"
    by simp
qed

lemma send_never_raises: "\<exists>b. fst (send_streak_to_user d username s) = Inr b"
  using yieldsD [OF send_streak_to_user_markers, of d username s]
  by (cases "fst (send_streak_to_user d username s)") auto

lemma send_catches:
  assumes "fst (send_streak_body d (lstrip_chars ''@'' username) s) = Inl e"
  shows "fst (send_streak_to_user d username s) = Inr False"
proof -
  obtain s1 where body: "send_streak_body d (lstrip_chars ''@'' username) s = (Inl e, s1)"
    using assms by (cases "send_streak_body d (lstrip_chars ''@'' username) s") simp
  obtain r w where shot: "env_save_screenshot d (''debug_error_'' @ lstrip_chars ''@'' username @ ''.png'')
      (world s1) = (r, w)"
    by (cases "env_save_screenshot d (''debug_error_'' @ lstrip_chars ''@'' username @ ''.png'') (world s1)")
  show ?thesis
    using body shot
    by (cases r)
       (simp_all add: send_streak_to_user_def Let_def try_except_def bind_def logger_def emit_def
          ret_def save_screenshot_def env_call_def)
qed

lemma offline_body: "fst (send_streak_body offline username s) = Inl WebDriverException"
  by (simp add: send_streak_body_def Let_def bind_def logger_def emit_def get_def env_call_def
      offline_def calm_def)


subsection \<open>What the markers show\<close>

lemma outcome_marker: "outcome_of ev \<noteq> None \<Longrightarrow> marker ev"
  by (induction ev rule: outcome_of.induct) simp_all

lemma delay_marker: "is_delay ev \<Longrightarrow> marker ev"
  by (induction ev rule: is_delay.induct) simp_all

lemma outcomes_markers: "outcomes (filter marker es) = outcomes es"
proof -
  have "(\<lambda>ev. marker ev \<and> outcome_of ev \<noteq> None) = (\<lambda>ev. outcome_of ev \<noteq> None)"
    using outcome_marker by blast
  then show ?thesis by (simp add: outcomes_def List.map_filter_def)
qed

lemma delays_markers: "delays (filter marker es) = delays es"
proof -
  have "(\<lambda>ev. marker ev \<and> is_delay ev) = is_delay"
    using delay_marker by blast
  then show ?thesis by (simp add: delays_def)
qed


lemma outcomes_simps [simp]:
  "outcomes [] = []"
  "outcomes (es @ es') = outcomes es @ outcomes es'"
  "outcomes (ev # es) = (case outcome_of ev of None \<Rightarrow> outcomes es | Some x \<Rightarrow> x # outcomes es)"
  by (simp_all add: outcomes_def List.map_filter_def split: option.splits)

lemma delays_simps [simp]:
  "delays [] = 0"
  "delays (es @ es') = delays es + delays es'"
  "delays (ev # es) = (if is_delay ev then Suc (delays es) else delays es)"
  by (simp_all add: delays_def)

lemma attempts_simps [simp]:
  "attempts_made username [] = 0"
  "attempts_made username (es @ es') = attempts_made username es + attempts_made username es'"
  "attempts_made username (ev # es) =
     (if ev = processing (lstrip_chars ''@'' username) then Suc (attempts_made username es)
      else attempts_made username es)"
  by (simp_all add: attempts_made_def)

lemma retries_observed:
  "outcomes (concat (map (\<lambda>j. [processing u, retried username j]) js)) = []"
  "delays (concat (map (\<lambda>j. [processing u, retried username j]) js)) = 0"
  "attempts_made username (concat (map (\<lambda>j. [processing (lstrip_chars ''@'' username), retried username j]) js))
     = length js"
  by (induction js) (simp_all add: processing_def retried_def)

lemma account_markers_observed:
  "outcomes (account_markers username a k ok) = [(username, ok)]"
  "delays (account_markers username a k ok) = 0"
  "1 \<le> k \<Longrightarrow> attempts_made username (account_markers username a k ok) = k"
  by (simp_all add: account_markers_def Let_def retries_observed)
     (simp_all add: processing_def succeeded_def recorded_def)

lemma run_markers_observed:
  "outcomes (run_markers users run) = [(run_account run, run_sent run)]"
  "delays (run_markers users run) = (if run_account run \<noteq> last users then 1 else 0)"
  by (simp_all add: run_markers_def account_markers_observed waiting_def)

lemma batch_markers_observed:
  "outcomes (batch_markers users runs) = map (\<lambda>run. (run_account run, run_sent run)) runs"
  "delays (batch_markers users runs) = length (filter (\<lambda>u. u \<noteq> last users) (map run_account runs))"
  by (induction runs) (simp_all add: batch_markers_def run_markers_observed)

lemma processing_in_batch:
  assumes "run \<in> set runs" "valid_run run"
  shows "processing (lstrip_chars ''@'' (run_account run)) \<in> set (batch_markers users runs)"
proof -
  have "processing (lstrip_chars ''@'' (run_account run))
      \<in> set (account_markers (run_account run) 0 (run_attempts run) (run_sent run))"
    by (simp add: account_markers_def Let_def)
  then have "processing (lstrip_chars ''@'' (run_account run)) \<in> set (run_markers users run)"
    by (simp add: run_markers_def)
  then show ?thesis
    using assms(1) by (auto simp: batch_markers_def)
qed

subsection \<open>Retrying an account\<close>

lemma account_markers_one:
  "account_markers username a (Suc 0) ok =
     processing (lstrip_chars ''@'' username)
     # (if ok then [succeeded (lstrip_chars ''@'' username), recorded username True]
        else [recorded username False])"
  by (simp add: account_markers_def Let_def)

lemma account_markers_Suc:
  assumes "1 \<le> k"
  shows "account_markers username a (Suc k) ok =
     processing (lstrip_chars ''@'' username) # retried username (a + 1)
     # account_markers username (Suc a) k ok"
proof -
  have "[a + 1..<a + Suc k] = (a + 1) # [Suc a + 1..<Suc a + k]"
    using assms by (simp add: upt_conv_Cons)
  then show ?thesis
    by (simp add: account_markers_def Let_def)
qed

lemma retry_loop_markers:
  assumes w: "writable d"
  shows "a < MAX_RETRIES \<Longrightarrow>
   yields (retry_loop d username [a..<MAX_RETRIES] (sc, fc)) (after_attempts username a (sc, fc))"
proof (induction "MAX_RETRIES - a" arbitrary: a)
  case 0
  then show ?case by simp
next
  case (Suc n)
  let ?u = "lstrip_chars ''@'' username"
  let ?rest = "[Suc a..<MAX_RETRIES]"
  have range: "[a..<MAX_RETRIES] = a # ?rest"
    using Suc.prems by (simp add: upt_conv_Cons)
  show ?case
    unfolding range retry_loop.simps
  proof (rule yields_bind [OF send_streak_to_user_markers])
    fix e :: exn and ms :: "event list"
    assume "\<not> isl (Inl e :: exn + bool) \<and> ms = processing ?u # (if Inl e = Inr True then [succeeded ?u] else [])"
    then show "after_attempts username a (sc, fc) (Inl e) ms" by simp
  next
    fix sent :: bool and ms :: "event list"
    assume "\<not> isl (Inr sent :: exn + bool) \<and> ms = processing ?u # (if Inr sent = Inr True then [succeeded ?u] else [])"
    then have ms: "ms = processing ?u # (if sent then [succeeded ?u] else [])" by simp
    let ?R = "\<lambda>r ms'. after_attempts username a (sc, fc) r (ms @ ms')"
    show "yields (if sent then
           bind (log_activity d [S '' @'', S username, S '' - SUCCESS''] INFO) (\<lambda>_.
           ret (sc + 1, fc))
         else if a < MAX_RETRIES - 1 then
           bind (log_activity d [S '' @'', S username, S '' - Retry '', N (a + 1), S ''/'', N MAX_RETRIES]
                   WARNING) (\<lambda>_.
           bind (sleep 5000) (\<lambda>_.
           retry_loop d username ?rest (sc, fc)))
         else
           bind (log_activity d [S '' @'', S username, S '' - FAILED''] ERROR) (\<lambda>_.
           retry_loop d username ?rest (sc, fc + 1))) ?R"
    proof (cases sent)
      case True
      have "after_attempts username a (sc, fc) (Inr (sc + 1, fc))
          (ms @ [Append LOG_FILE INFO [S '' @'', S username, S '' - SUCCESS'']])"
        unfolding after_attempts_def using Suc.prems ms True
        by (intro exI [of _ 1] exI [of _ True]) (simp add: account_markers_one recorded_def)
      then have "yields (bind (log_activity d [S '' @'', S username, S '' - SUCCESS''] INFO) (\<lambda>_.
           ret (sc + 1, fc))) ?R"
        by (intro yields_bind_log_activity [OF w] yields_ret) simp_all
      then show ?thesis using True by simp
    next
      case False
      show ?thesis
      proof (cases "a < MAX_RETRIES - 1")
        case more: True
        then have next_a: "Suc a < MAX_RETRIES" "n = MAX_RETRIES - Suc a"
          using Suc.hyps(2) by simp_all
        have "yields (retry_loop d username ?rest (sc, fc))
            (\<lambda>r ms'. after_attempts username a (sc, fc) r
               ((ms @ [retried username (a + 1)]) @ ms'))"
        proof (rule yields_weaken [OF Suc.hyps(1) [OF next_a(2) next_a(1)]])
          fix r ms'
          assume "after_attempts username (Suc a) (sc, fc) r ms'"
          then obtain k ok where k: "1 \<le> k" "Suc a + k \<le> MAX_RETRIES"
            "ok \<or> Suc a + k = MAX_RETRIES"
            "r = Inr (if ok then (sc + 1, fc) else (sc, fc + 1))"
            "ms' = account_markers username (Suc a) k ok"
            unfolding after_attempts_def fst_conv snd_conv by blast
          show "after_attempts username a (sc, fc) r ((ms @ [retried username (a + 1)]) @ ms')"
            unfolding after_attempts_def using k ms False
            by (intro exI [of _ "Suc k"] exI [of _ ok]) (auto simp: account_markers_Suc)
        qed
        then have "yields (bind (log_activity d [S '' @'', S username, S '' - Retry '', N (a + 1), S ''/'', N MAX_RETRIES]
                   WARNING) (\<lambda>_.
           bind (sleep 5000) (\<lambda>_.
           retry_loop d username ?rest (sc, fc)))) ?R"
          by (intro yields_bind_log_activity [OF w] yields_bind_total [OF total_sleep])
             (simp_all add: retried_def)
        then show ?thesis using False more by simp
      next
        case last: False
        then have a: "a + 1 = MAX_RETRIES" using Suc.prems by simp
        then have rest: "?rest = []" by simp
        have "after_attempts username a (sc, fc) (Inr (sc, fc + 1))
            (ms @ [Append LOG_FILE ERROR [S '' @'', S username, S '' - FAILED'']])"
          unfolding after_attempts_def using a ms False
          by (intro exI [of _ 1] exI [of _ False]) (simp add: account_markers_one recorded_def)
        then have "yields (bind (log_activity d [S '' @'', S username, S '' - FAILED''] ERROR) (\<lambda>_.
           retry_loop d username ?rest (sc, fc + 1))) ?R"
          unfolding rest retry_loop.simps
          by (intro yields_bind_log_activity [OF w] yields_ret) simp_all
        then show ?thesis using False last by simp
      qed
    qed
  qed
qed










subsection \<open>The batch\<close>

lemma delay_between_users_markers:
  assumes "users \<noteq> []"
  shows "yields (delay_between_users d users username)
     (\<lambda>r ms. r = Inr () \<and> (\<exists>t. ms = (if username \<noteq> last users then [waiting t] else [])))"
proof (cases "username \<noteq> last users")
  case False
  then show ?thesis
    using assms by (simp add: delay_between_users_def index_last_def bind_ret yields_ret)
next
  case True
  let ?R = "\<lambda>r ms. r = Inr () \<and> (\<exists>t. ms = (if username \<noteq> last users then [waiting t] else []))"
  have "yields (bind (uniform d 8000 15000) (\<lambda>delay.
       bind (logger INFO [S ''Waiting '', Secs delay, S ''s before next user...'']) (\<lambda>_.
       sleep delay))) ?R"
  proof (rule yields_bind_total)
    show "quiet_total (uniform d 8000 15000)" by (simp add: uniform_def total_intro)
    show "yields (bind (logger INFO [S ''Waiting '', Secs delay, S ''s before next user...'']) (\<lambda>_.
       sleep delay)) ?R" for delay
      using True
      by (intro yields_bind_logger_marker yields_sleep) (auto simp: waiting_def)
  qed
  then show ?thesis
    using assms True by (simp add: delay_between_users_def index_last_def bind_ret)
qed

lemma users_loop_markers:
  assumes w: "writable d" and "users \<noteq> []"
  shows "yields (users_loop d users rest counts) (after_users users rest counts)"
proof (induction rest arbitrary: counts)
  case Nil
  have "after_users users [] counts (Inr counts) []"
    unfolding after_users_def by (intro exI [of _ "[]"]) (simp add: batch_markers_def)
  then show ?case by (simp add: yields_ret)
next
  case (Cons username rest)
  obtain sc fc where counts: "counts = (sc, fc)" by (cases counts)
  have zero: "0 < MAX_RETRIES" by (simp add: MAX_RETRIES_def)
  show ?case
    unfolding users_loop.simps counts
  proof (rule yields_bind [OF retry_loop_markers [OF w zero]])
    fix e ms
    assume "after_attempts username 0 (sc, fc) (Inl e) ms"
    then show "after_users users (username # rest) (sc, fc) (Inl e) ms"
      unfolding after_attempts_def by auto
  next
    fix counts' ms
    assume "after_attempts username 0 (sc, fc) (Inr counts') ms"
    then obtain k ok where k: "1 \<le> k" "k \<le> MAX_RETRIES" "ok \<or> k = MAX_RETRIES"
      "counts' = (if ok then (sc + 1, fc) else (sc, fc + 1))"
      "ms = account_markers username 0 k ok"
      unfolding after_attempts_def fst_conv snd_conv by auto
    show "yields (bind (delay_between_users d users username) (\<lambda>_. users_loop d users rest counts'))
        (\<lambda>r ms'. after_users users (username # rest) (sc, fc) r (ms @ ms'))"
    proof (rule yields_bind [OF delay_between_users_markers [OF assms(2)]])
      fix e :: exn and ms1
      assume "(Inl e :: exn + unit) = Inr () \<and> (\<exists>t. ms1 = (if username \<noteq> last users then [waiting t] else []))"
      then show "after_users users (username # rest) (sc, fc) (Inl e) (ms @ ms1)" by simp
    next
      fix u :: unit and ms1
      assume "(Inr u :: exn + unit) = Inr () \<and> (\<exists>t. ms1 = (if username \<noteq> last users then [waiting t] else []))"
      then obtain t where t: "ms1 = (if username \<noteq> last users then [waiting t] else [])" by blast
      let ?run = "\<lparr>run_account = username, run_attempts = k, run_sent = ok, run_pause = t\<rparr>"
      have first: "ms @ ms1 = run_markers users ?run"
        by (simp add: run_markers_def k(5) t)
      show "yields (users_loop d users rest counts')
          (\<lambda>r ms'. after_users users (username # rest) (sc, fc) r (ms @ ms1 @ ms'))"
      proof (rule yields_weaken [OF Cons.IH])
        fix r ms'
        assume "after_users users rest counts' r ms'"
        then obtain runs where runs: "map run_account runs = rest" "list_all valid_run runs"
          "r = Inr (fst counts' + length (filter run_sent runs),
                snd counts' + length (filter (\<lambda>run. \<not> run_sent run) runs))"
          "ms' = batch_markers users runs"
          unfolding after_users_def by blast
        have "after_users users (username # rest) (sc, fc) r ((ms @ ms1) @ ms')"
          unfolding after_users_def first
          using runs k
          by (intro exI [of _ "?run # runs"])
             (auto simp: batch_markers_def valid_run_def)
        then show "after_users users (username # rest) (sc, fc) r (ms @ ms1 @ ms')" by simp
      qed
    qed
  qed
qed

lemma users_loop_all_markers:
  assumes "writable d"
  shows "yields (users_loop d users users counts) (after_users users users counts)"
proof (cases "users = []")
  case True
  have "after_users [] [] counts (Inr counts) []"
    unfolding after_users_def by (intro exI [of _ "[]"]) (simp add: batch_markers_def)
  then show ?thesis using True by (simp add: yields_ret)
next
  case False
  with assms show ?thesis by (rule users_loop_markers)
qed

lemma users_loop_runs:
  assumes "writable d"
  shows "\<exists>es runs. trace (snd (users_loop d users users (0, 0) s)) = trace s @ es
     \<and> map run_account runs = users \<and> list_all valid_run runs
     \<and> fst (users_loop d users users (0, 0) s)
         = Inr (length (filter run_sent runs), length (filter (\<lambda>run. \<not> run_sent run) runs))
     \<and> filter marker es = batch_markers users runs"
  using yieldsD [OF users_loop_all_markers [OF assms], of users "(0, 0)" s]
  unfolding after_users_def by auto

lemma sum_sent: "length (filter run_sent runs) + length (filter (\<lambda>run. \<not> run_sent run) runs) = length runs"
  by (induction runs) simp_all

lemma users_loop_outcomes:
  assumes "writable d"
  shows "\<exists>es success_count fail_count. trace (snd (users_loop d users users (0, 0) s)) = trace s @ es
     \<and> fst (users_loop d users users (0, 0) s) = Inr (success_count, fail_count)
     \<and> success_count + fail_count = length users
     \<and> map fst (outcomes es) = users
     \<and> success_count = length (filter snd (outcomes es))
     \<and> fail_count = length (filter (\<lambda>outcome. \<not> snd outcome) (outcomes es))
     \<and> delays es = length (filter (\<lambda>u. u \<noteq> last users) users)
     \<and> (\<forall>u \<in> set users. processing (lstrip_chars ''@'' u) \<in> set es)"
proof -
  from users_loop_runs [OF assms, of users s] obtain es runs where
    es: "trace (snd (users_loop d users users (0, 0) s)) = trace s @ es"
    and runs: "map run_account runs = users" "list_all valid_run runs"
    and r: "fst (users_loop d users users (0, 0) s)
         = Inr (length (filter run_sent runs), length (filter (\<lambda>run. \<not> run_sent run) runs))"
    and ms: "filter marker es = batch_markers users runs"
    by blast
  have out: "outcomes es = map (\<lambda>run. (run_account run, run_sent run)) runs"
    using outcomes_markers [of es] by (simp add: ms batch_markers_observed)
  have del: "delays es = length (filter (\<lambda>u. u \<noteq> last users) users)"
    using delays_markers [of es] by (simp add: ms batch_markers_observed runs(1))
  have len: "length runs = length users" using runs(1) by (metis length_map)
  have "processing (lstrip_chars ''@'' u) \<in> set es" if "u \<in> set users" for u
  proof -
    from that runs(1) obtain run where run: "run \<in> set runs" "run_account run = u" by auto
    then have "valid_run run" using runs(2) by (simp add: list_all_iff)
    from processing_in_batch [OF run(1) this, of users]
    have "processing (lstrip_chars ''@'' u) \<in> set (filter marker es)" by (simp add: ms run(2))
    then show ?thesis by simp
  qed
  then have all: "\<forall>u \<in> set users. processing (lstrip_chars ''@'' u) \<in> set es" by blast
  have sums: "length (filter run_sent runs) + length (filter (\<lambda>run. \<not> run_sent run) runs) = length users"
    using sum_sent [of runs] len by simp
  have s1: "length (filter run_sent runs) = length (filter snd (outcomes es))"
    by (simp add: out filter_map comp_def)
  have s2: "length (filter (\<lambda>run. \<not> run_sent run) runs)
      = length (filter (\<lambda>outcome. \<not> snd outcome) (outcomes es))"
    by (simp add: out filter_map comp_def)
  have names: "map fst (outcomes es) = users"
    using runs(1) by (simp add: out comp_def)
  show ?thesis
    apply (rule exI [of _ es], rule exI [of _ "length (filter run_sent runs)"],
        rule exI [of _ "length (filter (\<lambda>run. \<not> run_sent run) runs)"])
    using es r sums s1 s2 names del all apply blast
    done
qed

lemma process_users_run:
  assumes "writable d"
    and "users_loop d users users (0, 0) \<lparr>world = snd (env_append d LOG_FILE (world s)),
        trace = trace s @ log_entry INFO
          [S '' Bot ready. Processing '', N (length users), S '' users...'']\<rparr> = (Inr (sc, fc), s1)"
  shows "fst (process_users d users s) = Inr (sc, fc)"
    and "trace (snd (process_users d users s)) = trace s1
        @ log_entry INFO [S (replicate 70 CHR ''='')]
        @ log_entry INFO [S ''DAILY RUN COMPLETED'']
        @ log_entry INFO [S ''Results: '', N sc, S ''/'', N (length users), S '' successful'']
        @ log_entry INFO [S ''Success: '', N sc, S '', Failed: '', N fc]
        @ log_entry INFO [S (replicate 70 CHR ''='')]"
proof -
  have "bind (users_loop d users users (0, 0)) f \<lparr>world = snd (env_append d LOG_FILE (world s)),
        trace = trace s @ log_entry INFO
          [S '' Bot ready. Processing '', N (length users), S '' users...'']\<rparr> = f (sc, fc) s1"
    for f :: "nat \<times> nat \<Rightarrow> (nat \<times> nat, 'a) prog"
    using assms(2) by (simp add: bind_def)
  then show "fst (process_users d users s) = Inr (sc, fc)"
    and "trace (snd (process_users d users s)) = trace s1
        @ log_entry INFO [S (replicate 70 CHR ''='')]
        @ log_entry INFO [S ''DAILY RUN COMPLETED'']
        @ log_entry INFO [S ''Results: '', N sc, S ''/'', N (length users), S '' successful'']
        @ log_entry INFO [S ''Success: '', N sc, S '', Failed: '', N fc]
        @ log_entry INFO [S (replicate 70 CHR ''='')]"
    unfolding process_users_def
    by (simp_all add: bind_log_activity [OF assms(1)] ret_def)
qed

text \<open>
  C1. With an activity log that can be written, the batch (lines 429-460) completes on
  every account list and its two counters add up to the number of accounts of the list.
  The activity log holds one outcome record for each account, in the order of the list, a
  SUCCESS or a FAILED one; the success counter is the number of SUCCESS records, the
  failure counter the number of FAILED records, and the summary line is written with these
  two counters.
\<close>

theorem run_summary_counts:
  assumes "writable d"
  shows "case process_users d users s of (r, s') \<Rightarrow>
     \<exists>es success_count fail_count. trace s' = trace s @ es
       \<and> r = Inr (success_count, fail_count)
       \<and> success_count + fail_count = length users
       \<and> map fst (outcomes es) = users
       \<and> success_count = length (filter snd (outcomes es))
       \<and> fail_count = length (filter (\<lambda>outcome. \<not> snd outcome) (outcomes es))
       \<and> Append LOG_FILE INFO [S ''Success: '', N success_count, S '', Failed: '', N fail_count]
           \<in> set es"
proof -
  let ?ready = "log_entry INFO [S '' Bot ready. Processing '', N (length users), S '' users...'']"
  let ?s0 = "\<lparr>world = snd (env_append d LOG_FILE (world s)), trace = trace s @ ?ready\<rparr>"
  from users_loop_outcomes [OF assms, of users ?s0] obtain es sc fc where
    es: "trace (snd (users_loop d users users (0, 0) ?s0)) = trace ?s0 @ es"
    "fst (users_loop d users users (0, 0) ?s0) = Inr (sc, fc)"
    "sc + fc = length users" "map fst (outcomes es) = users"
    "sc = length (filter snd (outcomes es))"
    "fc = length (filter (\<lambda>outcome. \<not> snd outcome) (outcomes es))"
    by blast
  obtain s1 where loop: "users_loop d users users (0, 0) ?s0 = (Inr (sc, fc), s1)"
    using es(2) by (cases "users_loop d users users (0, 0) ?s0") simp
  let ?summary = "log_entry INFO [S (replicate 70 CHR ''='')]
        @ log_entry INFO [S ''DAILY RUN COMPLETED'']
        @ log_entry INFO [S ''Results: '', N sc, S ''/'', N (length users), S '' successful'']
        @ log_entry INFO [S ''Success: '', N sc, S '', Failed: '', N fc]
        @ log_entry INFO [S (replicate 70 CHR ''='')]"
  have tr: "trace s1 = trace s @ ?ready @ es" using es(1) loop by simp
  have obs: "outcomes (?ready @ es @ ?summary) = outcomes es"
    by (simp add: log_entry_def)
  have line: "Append LOG_FILE INFO [S ''Success: '', N sc, S '', Failed: '', N fc]
      \<in> set (?ready @ es @ ?summary)"
    by (simp add: log_entry_def)
  obtain r s' where run: "process_users d users s = (r, s')"
    by (cases "process_users d users s")
  from process_users_run [OF assms loop] run
  have r: "r = Inr (sc, fc)" and s': "trace s' = trace s @ ?ready @ es @ ?summary"
    using tr by simp_all
  show ?thesis
    unfolding run prod.case
    apply (rule exI [of _ "?ready @ es @ ?summary"], rule exI [of _ sc], rule exI [of _ fc])
    unfolding obs
    using es(3-6) r s' line apply blast
    done
qed

theorem run_summary_counts_witness:
  "writable offline
   \<and> (\<exists>es success_count fail_count.
     trace (snd (process_users offline [''user1'', ''user2''] start)) = trace start @ es
     \<and> fst (process_users offline [''user1'', ''user2''] start) = Inr (success_count, fail_count)
     \<and> success_count + fail_count = 2
     \<and> map fst (outcomes es) = [''user1'', ''user2''])"
proof -
  obtain r s' where run: "process_users offline [''user1'', ''user2''] start = (r, s')"
    by (cases "process_users offline [''user1'', ''user2''] start")
  from run_summary_counts [where d = offline and users = "[''user1'', ''user2'']" and s = start,
      OF writable_examples(2)]
  show ?thesis unfolding run by auto
qed

text \<open>
  C3 does not hold of the code. Line 450 compares the handle of the account with the last
  handle of the list, not the position of the account with the last position. On the list
  alice, bob, alice lines 449-453 do nothing after the first account, which is not in the
  final position; with an activity log that can be written, every run processes the three
  accounts and pauses once, after bob.
\<close>

theorem delay_compares_handles:
  "delay_between_users d [''alice'', ''bob'', ''alice''] ''alice'' s = (Inr (), s)
   \<and> (writable d \<longrightarrow>
       (case users_loop d [''alice'', ''bob'', ''alice''] [''alice'', ''bob'', ''alice''] (0, 0) s of
          (r, s') \<Rightarrow> \<exists>es. trace s' = trace s @ es
             \<and> map fst (outcomes es) = [''alice'', ''bob'', ''alice'']
             \<and> delays es = 1))"
proof (intro conjI impI)
  let ?users = "[''alice'', ''bob'', ''alice'']"
  show "delay_between_users d ?users ''alice'' s = (Inr (), s)"
    by (simp add: delay_between_users_def index_last_def bind_def ret_def)
  assume w: "writable d"
  obtain r s' where run: "users_loop d ?users ?users (0, 0) s = (r, s')"
    by (cases "users_loop d ?users ?users (0, 0) s")
  from users_loop_outcomes [OF w, of ?users s] run
  obtain es where "trace s' = trace s @ es" "map fst (outcomes es) = ?users"
    "delays es = length (filter (\<lambda>u. u \<noteq> last ?users) ?users)"
    by auto
  then show "case users_loop d ?users ?users (0, 0) s of
          (r, s') \<Rightarrow> \<exists>es. trace s' = trace s @ es
             \<and> map fst (outcomes es) = ?users
             \<and> delays es = 1"
    unfolding run by (intro case_prodI exI [of _ es]) simp
qed

theorem delay_compares_handles_witness:
  "writable calm
   \<and> delay_between_users calm [''alice'', ''bob'', ''alice''] ''alice'' start = (Inr (), start)
   \<and> (\<exists>es. trace (snd (users_loop calm [''alice'', ''bob'', ''alice'']
                 [''alice'', ''bob'', ''alice''] (0, 0) start)) = trace start @ es
        \<and> map fst (outcomes es) = [''alice'', ''bob'', ''alice'']
        \<and> delays es = 1)"
proof -
  obtain r s' where run: "users_loop calm [''alice'', ''bob'', ''alice'']
      [''alice'', ''bob'', ''alice''] (0, 0) start = (r, s')"
    by (cases "users_loop calm [''alice'', ''bob'', ''alice''] [''alice'', ''bob'', ''alice'']
        (0, 0) start")
  from delay_compares_handles [where d = calm and s = start]
  show ?thesis unfolding run by auto
qed

text \<open>
  C5. \<open>send_streak_to_user\<close> never raises: its value is a boolean, and the value is False
  when the body of its try statement raises. With an activity log that can be written, the
  loop on the accounts does not raise either: on every list it returns the two counters,
  the trace holds an outcome record for every account, in the order of the list, and a
  visit of the profile of every account, whatever happened to the accounts before it.
\<close>

theorem failure_isolation:
  "(\<exists>b. fst (send_streak_to_user d username s) = Inr b)
   \<and> (fst (send_streak_body d (lstrip_chars ''@'' username) s) = Inl e
        \<longrightarrow> fst (send_streak_to_user d username s) = Inr False)
   \<and> (writable d \<longrightarrow>
       (case users_loop d users users (0, 0) s of (r, s') \<Rightarrow>
        \<exists>es counts. trace s' = trace s @ es \<and> r = Inr counts
          \<and> map fst (outcomes es) = users
          \<and> (\<forall>u \<in> set users. processing (lstrip_chars ''@'' u) \<in> set es)))"
proof (intro conjI impI)
  show "\<exists>b. fst (send_streak_to_user d username s) = Inr b" by (rule send_never_raises)
  show "fst (send_streak_to_user d username s) = Inr False"
    if "fst (send_streak_body d (lstrip_chars ''@'' username) s) = Inl e"
    using that by (rule send_catches)
  assume w: "writable d"
  obtain r s' where run: "users_loop d users users (0, 0) s = (r, s')"
    by (cases "users_loop d users users (0, 0) s")
  from users_loop_outcomes [OF w, of users s] run
  obtain es sc fc where "trace s' = trace s @ es" "r = Inr (sc, fc)"
    "map fst (outcomes es) = users"
    "\<forall>u \<in> set users. processing (lstrip_chars ''@'' u) \<in> set es"
    by auto
  then show "case users_loop d users users (0, 0) s of (r, s') \<Rightarrow>
        \<exists>es counts. trace s' = trace s @ es \<and> r = Inr counts
          \<and> map fst (outcomes es) = users
          \<and> (\<forall>u \<in> set users. processing (lstrip_chars ''@'' u) \<in> set es)"
    unfolding run by (intro case_prodI exI [of _ es] exI [of _ "(sc, fc)"]) simp
qed

theorem failure_isolation_witness:
  "writable offline
   \<and> fst (send_streak_body offline (lstrip_chars ''@'' ''user1'') start) = Inl WebDriverException
   \<and> fst (send_streak_to_user offline ''user1'' start) = Inr False
   \<and> (\<exists>es counts. trace (snd (users_loop offline [''user1'', ''user2''] [''user1'', ''user2''] (0, 0) start))
          = trace start @ es
        \<and> fst (users_loop offline [''user1'', ''user2''] [''user1'', ''user2''] (0, 0) start) = Inr counts
        \<and> map fst (outcomes es) = [''user1'', ''user2'']
        \<and> processing ''user1'' \<in> set es \<and> processing ''user2'' \<in> set es)"
proof -
  let ?users = "[''user1'', ''user2'']"
  have b: "fst (send_streak_body offline (lstrip_chars ''@'' ''user1'') start) = Inl WebDriverException"
    by (rule offline_body)
  obtain r s' where run: "users_loop offline ?users ?users (0, 0) start = (r, s')"
    by (cases "users_loop offline ?users ?users (0, 0) start")
  note t = failure_isolation [where d = offline and username = "''user1''" and s = start
      and e = WebDriverException and users = ?users]
  from t b have f: "fst (send_streak_to_user offline ''user1'' start) = Inr False" by blast
  from t obtain es counts where es: "trace s' = trace start @ es" "r = Inr counts"
    "map fst (outcomes es) = ?users"
    "\<forall>u \<in> set ?users. processing (lstrip_chars ''@'' u) \<in> set es"
    unfolding run by auto
  have strip: "lstrip_chars ''@'' ''user1'' = ''user1''" "lstrip_chars ''@'' ''user2'' = ''user2''"
    by (simp_all add: lstrip_chars_def)
  from es(4) have "processing ''user1'' \<in> set es" "processing ''user2'' \<in> set es"
    using strip by auto
  with b f es show ?thesis unfolding run by auto
qed

subsection \<open>An empty account list\<close>

lemma vacant_list: "users_of_lines (file_lines ''# nobody yet\<newline>\<newline>'') = []"
  by code_simp

text \<open>
  C10. With an activity log that can be written and the two files readable, a list that
  holds no account makes the run exactly: the three entries of the banner, the two reads
  with their logger lines, and the error entry on the empty list. No browser is started, no
  profile is visited and no outcome is recorded; \<open>run_streak_bot\<close> returns without an
  exception, so the scheduler that called it goes on.
\<close>

theorem empty_list_no_browser:
  assumes "writable d"
    and "\<forall>w. \<exists>w'. env_read_cookies d COOKIES_FILE w = (Inr cookies, w')"
    and "\<forall>w. \<exists>w'. env_read_text d USERS_FILE w = (Inr content, w')"
    and "users_of_lines (file_lines content) = []"
  shows "fst (run_streak_bot d s) = Inr No_users
    \<and> trace (snd (run_streak_bot d s)) = trace s
        @ log_entry INFO [S (replicate 70 CHR ''='')]
        @ log_entry INFO [S ''DAILY RUN STARTED - '', Now]
        @ log_entry INFO [S (replicate 70 CHR ''='')]
        @ [Call (Read_file COOKIES_FILE) True,
           Logger INFO [S '' Loaded '', N (length cookies), S '' cookies from '', S COOKIES_FILE],
           Call (Read_file USERS_FILE) True,
           Logger INFO [S '' Loaded '', N 0, S '' users from '', S USERS_FILE]]
        @ log_entry ERROR [S ''No users in list.txt'']"
proof -
  let ?banner = "log_entry INFO [S (replicate 70 CHR ''='')]
        @ log_entry INFO [S ''DAILY RUN STARTED - '', Now]
        @ log_entry INFO [S (replicate 70 CHR ''='')]"
  let ?loaded = "[Call (Read_file COOKIES_FILE) True,
           Logger INFO [S '' Loaded '', N (length cookies), S '' cookies from '', S COOKIES_FILE],
           Call (Read_file USERS_FILE) True,
           Logger INFO [S '' Loaded '', N 0, S '' users from '', S USERS_FILE]]"
  have cookies: "\<exists>w'. load_cookies d \<lparr>world = w, trace = es\<rparr>
      = (Inr cookies, \<lparr>world = w', trace = es @ [Call (Read_file COOKIES_FILE) True,
           Logger INFO [S '' Loaded '', N (length cookies), S '' cookies from '', S COOKIES_FILE]]\<rparr>)"
    for w es
  proof -
    from assms(2) obtain w' where "env_read_cookies d COOKIES_FILE w = (Inr cookies, w')" by blast
    then show ?thesis
      by (simp add: load_cookies_def try_except_def bind_def env_call_def logger_def emit_def ret_def)
  qed
  have users: "\<exists>w'. load_users d \<lparr>world = w, trace = es\<rparr>
      = (Inr [], \<lparr>world = w', trace = es @ [Call (Read_file USERS_FILE) True,
           Logger INFO [S '' Loaded '', N 0, S '' users from '', S USERS_FILE]]\<rparr>)"
    for w es
  proof -
    from assms(3) obtain w' where "env_read_text d USERS_FILE w = (Inr content, w')" by blast
    then show ?thesis
      using assms(4)
      by (simp add: load_users_def try_except_def bind_def env_call_def logger_def emit_def ret_def
          Let_def)
  qed
  have before: "\<exists>w'. before_driver d \<lparr>world = w, trace = es\<rparr>
      = (Inr None, \<lparr>world = w', trace = es @ ?loaded @ log_entry ERROR [S ''No users in list.txt'']\<rparr>)"
    for w es
  proof -
    from cookies [of w es] obtain w1 where c: "load_cookies d \<lparr>world = w, trace = es\<rparr>
      = (Inr cookies, \<lparr>world = w1, trace = es @ [Call (Read_file COOKIES_FILE) True,
           Logger INFO [S '' Loaded '', N (length cookies), S '' cookies from '', S COOKIES_FILE]]\<rparr>)"
      by blast
    from users [of w1 "es @ [Call (Read_file COOKIES_FILE) True,
           Logger INFO [S '' Loaded '', N (length cookies), S '' cookies from '', S COOKIES_FILE]]"]
    obtain w2 where u: "load_users d \<lparr>world = w1, trace = es @ [Call (Read_file COOKIES_FILE) True,
           Logger INFO [S '' Loaded '', N (length cookies), S '' cookies from '', S COOKIES_FILE]]\<rparr>
      = (Inr [], \<lparr>world = w2, trace = (es @ [Call (Read_file COOKIES_FILE) True,
           Logger INFO [S '' Loaded '', N (length cookies), S '' cookies from '', S COOKIES_FILE]])
           @ [Call (Read_file USERS_FILE) True,
           Logger INFO [S '' Loaded '', N 0, S '' users from '', S USERS_FILE]]\<rparr>)"
      by blast
    have "bind (load_cookies d) f \<lparr>world = w, trace = es\<rparr> = f cookies \<lparr>world = w1, trace = es @ [Call (Read_file COOKIES_FILE) True,
           Logger INFO [S '' Loaded '', N (length cookies), S '' cookies from '', S COOKIES_FILE]]\<rparr>"
      for f :: "cookie list \<Rightarrow> ((cookie list \<times> string list) option, 'a) prog"
      using c by (simp add: bind_def)
    moreover have "bind (load_users d) g \<lparr>world = w1, trace = es @ [Call (Read_file COOKIES_FILE) True,
           Logger INFO [S '' Loaded '', N (length cookies), S '' cookies from '', S COOKIES_FILE]]\<rparr>
        = g [] \<lparr>world = w2, trace = (es @ [Call (Read_file COOKIES_FILE) True,
           Logger INFO [S '' Loaded '', N (length cookies), S '' cookies from '', S COOKIES_FILE]])
           @ [Call (Read_file USERS_FILE) True,
           Logger INFO [S '' Loaded '', N 0, S '' users from '', S USERS_FILE]]\<rparr>"
      for g :: "string list \<Rightarrow> ((cookie list \<times> string list) option, 'a) prog"
      using u by (simp add: bind_def)
    ultimately show ?thesis
      unfolding before_driver_def
      by (simp add: bind_log_activity [OF assms(1)] ret_def)
  qed
  let ?w0 = "snd (env_append d LOG_FILE (snd (env_append d LOG_FILE (snd (env_append d LOG_FILE (world s))))))"
  from before [of ?w0 "trace s @ ?banner"] obtain w' where
    b: "before_driver d \<lparr>world = ?w0, trace = trace s @ ?banner\<rparr>
      = (Inr None, \<lparr>world = w', trace = (trace s @ ?banner) @ ?loaded
           @ log_entry ERROR [S ''No users in list.txt'']\<rparr>)"
    by blast
  have "bind (try_except (bind (before_driver d) (\<lambda>config. ret (Inr config))) (\<lambda>e. ret (Inl e))) k
        \<lparr>world = ?w0, trace = trace s @ ?banner\<rparr>
      = k (Inr None) \<lparr>world = w', trace = (trace s @ ?banner) @ ?loaded
           @ log_entry ERROR [S ''No users in list.txt'']\<rparr>"
    for k :: "exn + (cookie list \<times> string list) option \<Rightarrow> (run, 'a) prog"
    by (simp add: bind_def try_except_def b ret_def)
  then show ?thesis
    unfolding run_streak_bot_def
    by (simp add: bind_log_activity [OF assms(1)] ret_def)
qed

theorem empty_list_no_browser_witness:
  "writable vacant
   \<and> (\<forall>w. \<exists>w'. env_read_cookies vacant COOKIES_FILE w = (Inr [], w'))
   \<and> (\<forall>w. \<exists>w'. env_read_text vacant USERS_FILE w = (Inr ''# nobody yet\<newline>\<newline>'', w'))
   \<and> users_of_lines (file_lines ''# nobody yet\<newline>\<newline>'') = []
   \<and> fst (run_streak_bot vacant start) = Inr No_users
   \<and> outcomes (trace (snd (run_streak_bot vacant start))) = []
   \<and> filter (\<lambda>ev. ev = Call Chrome True \<or> ev = Call Chrome False)
        (trace (snd (run_streak_bot vacant start))) = []"
proof -
  have c: "\<forall>w. \<exists>w'. env_read_cookies vacant COOKIES_FILE w = (Inr [], w')"
    by (simp add: vacant_def calm_def)
  have u: "\<forall>w. \<exists>w'. env_read_text vacant USERS_FILE w = (Inr ''# nobody yet\<newline>\<newline>'', w')"
    by (simp add: vacant_def calm_def)
  from empty_list_no_browser [OF writable_examples(4) c u vacant_list, of start]
  have run: "fst (run_streak_bot vacant start) = Inr No_users"
    "trace (snd (run_streak_bot vacant start)) = trace start
        @ log_entry INFO [S (replicate 70 CHR ''='')]
        @ log_entry INFO [S ''DAILY RUN STARTED - '', Now]
        @ log_entry INFO [S (replicate 70 CHR ''='')]
        @ [Call (Read_file COOKIES_FILE) True,
           Logger INFO [S '' Loaded '', N (length ([] :: cookie list)), S '' cookies from '', S COOKIES_FILE],
           Call (Read_file USERS_FILE) True,
           Logger INFO [S '' Loaded '', N 0, S '' users from '', S USERS_FILE]]
        @ log_entry ERROR [S ''No users in list.txt'']"
    by simp_all
  have "outcomes (trace (snd (run_streak_bot vacant start))) = []"
    "filter (\<lambda>ev. ev = Call Chrome True \<or> ev = Call Chrome False)
        (trace (snd (run_streak_bot vacant start))) = []"
    unfolding run(2) by (simp_all add: start_def log_entry_def)
  with run(1) c u vacant_list show ?thesis by simp
qed

end
